theory Spec2Isabelle
  imports Main "HOL-Library.Multiset" "HOL-Library.Option_ord"
begin

section \<open>Data model\<close>

text \<open>
  \<^verbatim>\<open>TransactionData\<close> as \<^verbatim>\<open>TxService\<close> uses it: an optional serial \<^verbatim>\<open>txId\<close>
  (absent before the first insertion, removed with \<^verbatim>\<open>delete tx.txId\<close> before a
  re-insertion), the signing key \<^verbatim>\<open>pubKey\<close>, the \<^verbatim>\<open>nonce\<close>, the reward
  \<^verbatim>\<open>tokenRewardAmount\<close> (read through \<^verbatim>\<open>ethers.BigNumber.from\<close>, an unsigned
  amount) and the remaining, opaque fields (signature, contract address, method
  id, encoded parameters), kept together as \<open>payload\<close>.
\<close>

record TransactionData =
  txId :: "nat option"
  pubKey :: string
  nonce :: nat
  tokenRewardAmount :: nat
  payload :: string

text \<open>
  \<^verbatim>\<open>AddTransactionFailure\<close>: the two failures \<^verbatim>\<open>TxService\<close> builds itself carry the
  numbers their description is made of; every other failure comes from
  \<^verbatim>\<open>WalletService.checkTx\<close>.
\<close>

datatype AddTransactionFailure =
    CheckFailure string
  | DuplicateNonce nat
  | InsufficientReward nat nat

text \<open>
  What a call can throw: the pool's \<^verbatim>\<open>DuplicateKey\<close>, and the argument error of
  \<^verbatim>\<open>ethers.BigNumber.from\<close> on a value that is no number (\<^verbatim>\<open>null\<close>).
\<close>

datatype error = DuplicateKey | InvalidBigNumber

record Config =
  txQueryLimit :: nat
  maxFutureTxs :: nat

section \<open>The ordered pool\<close>

text \<open>
  Modelled from the spec: \<^verbatim>\<open>TxTable\<close> (the class behind \<^verbatim>\<open>readyTxTable\<close> and
  \<^verbatim>\<open>futureTxTable\<close>) is not among the sources; section 4.1 of the specification
  gives its contract. A table is its rows in insertion order and the next serial
  id.
\<close>

record TxTable =
  rows :: "TransactionData list"
  nextTxId :: nat

definition emptyTable :: TxTable where
  "emptyTable = \<lparr>rows = [], nextTxId = 1\<rparr>"

text \<open>
  Modelled from the spec: \<^verbatim>\<open>find(account, nonce) -> Operation Record | absent\<close>.
\<close>

definition tbl_find :: "TxTable \<Rightarrow> string \<Rightarrow> nat \<Rightarrow> TransactionData option" where
  "tbl_find t pk n = find (\<lambda>r. pubKey r = pk \<and> nonce r = n) (rows t)"

text \<open>
  Modelled from the spec: \<^verbatim>\<open>add(record...)\<close> inserts one or more records,
  assigning fresh serial ids; fails with \<^verbatim>\<open>DuplicateKey\<close> if an (account, nonce)
  pair already exists in this pool. A failed call inserts nothing.
\<close>

fun tbl_add :: "TransactionData list \<Rightarrow> TxTable \<Rightarrow> error + TxTable" where
  "tbl_add [] t = Inr t"
| "tbl_add (tx # txs) t =
     (if tbl_find t (pubKey tx) (nonce tx) \<noteq> None then Inl DuplicateKey
      else tbl_add txs
             \<lparr>rows = rows t @ [tx\<lparr>txId := Some (nextTxId t)\<rparr>],
              nextTxId = nextTxId t + 1\<rparr>)"

text \<open>
  Modelled from the spec: \<^verbatim>\<open>remove(record...)\<close> deletes by identity. Every record
  \<^verbatim>\<open>TxService\<close> removes was fetched from the table just before and carries its
  id, so identity is the id here.
\<close>

definition tbl_remove :: "TransactionData list \<Rightarrow> TxTable \<Rightarrow> TxTable" where
  "tbl_remove txs t = t\<lparr>rows := filter (\<lambda>r. txId r \<notin> set (map txId txs)) (rows t)\<rparr>"

text \<open>
  Modelled from the spec: \<^verbatim>\<open>findAfter(account, nonce, limit)\<close>, the account's
  records with a greater nonce, ascending, at most \<open>limit\<close> of them.
\<close>

definition tbl_findAfter :: "TxTable \<Rightarrow> string \<Rightarrow> nat \<Rightarrow> nat \<Rightarrow> TransactionData list" where
  "tbl_findAfter t pk n limit =
     take limit (sort_key nonce (filter (\<lambda>r. pubKey r = pk \<and> n < nonce r) (rows t)))"

text \<open>
  Modelled from the spec: \<^verbatim>\<open>pubKeyTxsInNonceOrder(account, limit)\<close>, the
  account's records, ascending by nonce, at most \<open>limit\<close> of them.
\<close>

definition tbl_pubKeyTxsInNonceOrder :: "TxTable \<Rightarrow> string \<Rightarrow> nat \<Rightarrow> TransactionData list" where
  "tbl_pubKeyTxsInNonceOrder t pk limit =
     take limit (sort_key nonce (filter (\<lambda>r. pubKey r = pk) (rows t)))"

text \<open>
  Modelled from the spec: \<^verbatim>\<open>nextNonceOf(account)\<close>, the highest stored nonce
  plus one, or absent if the account has no records.
\<close>

definition tbl_nextNonceOf :: "TxTable \<Rightarrow> string \<Rightarrow> nat option" where
  "tbl_nextNonceOf t pk =
     (case filter (\<lambda>r. pubKey r = pk) (rows t) of
        [] \<Rightarrow> None
      | r # rs \<Rightarrow> Some (Max (set (map nonce (r # rs))) + 1))"

text \<open>Modelled from the spec: \<^verbatim>\<open>count()\<close>, the total number of records.\<close>

definition tbl_count :: "TxTable \<Rightarrow> nat" where
  "tbl_count t = length (rows t)"

text \<open>
  Modelled from the spec: \<^verbatim>\<open>first()\<close>, the globally oldest record by id, or
  absent if the pool is empty.
\<close>

definition tbl_First :: "TxTable \<Rightarrow> TransactionData option" where
  "tbl_First t = (case sort_key txId (rows t) of [] \<Rightarrow> None | r # rs \<Rightarrow> Some r)"

text \<open>
  Modelled from the spec: \<^verbatim>\<open>clearBeforeId(id)\<close> deletes all records with an id
  below the threshold, across all accounts. (Every stored record has the id that
  \<^verbatim>\<open>add\<close> gave it; ids are compared as optional values, \<open>Some i < Some j\<close> being
  \<open>i < j\<close>.)
\<close>

definition tbl_clearBeforeId :: "nat \<Rightarrow> TxTable \<Rightarrow> TxTable" where
  "tbl_clearBeforeId i t = t\<lparr>rows := filter (\<lambda>r. \<not> txId r < Some i) (rows t)\<rparr>"

section \<open>The wallet service\<close>

text \<open>
  Modelled from the spec: \<^verbatim>\<open>WalletService.checkTx\<close> is not among the sources;
  section 6 of the specification has it check the operation and return the
  ledger's next nonce for the operation's account. \<open>txFailures\<close> is the check,
  \<open>chainNextNonce\<close> the ledger.
\<close>

record WalletService =
  txFailures :: "TransactionData \<Rightarrow> AddTransactionFailure list"
  chainNextNonce :: "string \<Rightarrow> nat"

definition checkTx :: "WalletService \<Rightarrow> TransactionData \<Rightarrow> AddTransactionFailure list \<times> nat" where
  "checkTx ws txData = (txFailures ws txData, chainNextNonce ws (pubKey txData))"

section \<open>TxService\<close>

record TxService =
  readyTxTable :: TxTable
  futureTxTable :: TxTable

definition emptyService :: TxService where
  "emptyService = \<lparr>readyTxTable = emptyTable, futureTxTable = emptyTable\<rparr>"

text \<open>
  \<^verbatim>\<open>LowestAcceptableNonce\<close>: the comparison reads \<^verbatim>\<open>nextLocalNonce ?? 0\<close>, the
  other branch \<^verbatim>\<open>ethers.BigNumber.from(nextLocalNonce)\<close>, which throws on
  \<^verbatim>\<open>null\<close>.
\<close>

definition LowestAcceptableNonce :: "TxService \<Rightarrow> nat \<Rightarrow> string \<Rightarrow> error + nat" where
  "LowestAcceptableNonce s nextChainNonce pk =
     (let nextLocalNonce = tbl_nextNonceOf (readyTxTable s) pk in
      if nextChainNonce > (case nextLocalNonce of None \<Rightarrow> 0 | Some n \<Rightarrow> n)
      then Inr nextChainNonce
      else (case nextLocalNonce of None \<Rightarrow> Inl InvalidBigNumber | Some n \<Rightarrow> Inr n))"

text \<open>
  The \<^verbatim>\<open>for\<close> loop of \<^verbatim>\<open>tryMoveFutureTxs\<close> over one page: the result is the
  nonce reached, \<^verbatim>\<open>futureTxsToRemove\<close> and \<^verbatim>\<open>txsToAdd\<close>. A record above
  the nonce reached ends the loop (\<^verbatim>\<open>break\<close>).
\<close>

fun scanFutureTxs ::
  "nat \<Rightarrow> TransactionData list \<Rightarrow> nat \<times> TransactionData list \<times> TransactionData list" where
  "scanFutureTxs lowest [] = (lowest, [], [])"
| "scanFutureTxs lowest (tx # txs) =
     (if lowest > nonce tx then
        (case scanFutureTxs lowest txs of
           (l, toRemove, toAdd) \<Rightarrow> (l, tx # toRemove, toAdd))
      else if lowest = nonce tx then
        (case scanFutureTxs (lowest + 1) txs of
           (l, toRemove, toAdd) \<Rightarrow> (l, tx # toRemove, tx\<lparr>txId := None\<rparr> # toAdd))
      else (lowest, [], []))"

text \<open>
  \<^verbatim>\<open>tryMoveFutureTxs\<close>: the \<^verbatim>\<open>do ... while\<close> loop. It goes on for as long as a
  page removes exactly \<^verbatim>\<open>txQueryLimit\<close> records, which is forever when the limit
  is 0; not returning is \<open>None\<close>. A throwing pool call ends it with the state
  reached.
\<close>

partial_function (option) tryMoveFutureTxs ::
  "Config \<Rightarrow> string \<Rightarrow> nat \<Rightarrow> TxService \<Rightarrow> (TxService \<times> error option) option" where
  "tryMoveFutureTxs cfg pk lowestAcceptableNonce s =
     (let futureTxs = tbl_pubKeyTxsInNonceOrder (futureTxTable s) pk (txQueryLimit cfg);
          scanned = scanFutureTxs lowestAcceptableNonce futureTxs;
          futureTxsToRemove = fst (snd scanned);
          txsToAdd = snd (snd scanned)
      in case tbl_add txsToAdd (readyTxTable s) of
           Inl e \<Rightarrow> Some (s, Some e)
         | Inr ready \<Rightarrow>
             (let s' = s\<lparr>readyTxTable := ready,
                         futureTxTable := tbl_remove futureTxsToRemove (futureTxTable s)\<rparr>
              in if length futureTxsToRemove = txQueryLimit cfg
                 then tryMoveFutureTxs cfg pk (fst scanned) s'
                 else Some (s', None)))"

declare tryMoveFutureTxs.simps [code]

text \<open>
  \<^verbatim>\<open>ensureFutureTxSpace\<close>. \<^verbatim>\<open>clearBeforeId\<close> is called without \<^verbatim>\<open>await\<close>; the
  pool serves its calls in the order they are issued, so the deletion comes
  before the insertion that follows. A first record without an id would make
  the threshold \<^verbatim>\<open>NaN\<close>, below which no id lies.
\<close>

definition ensureFutureTxSpace :: "Config \<Rightarrow> TxService \<Rightarrow> TxService" where
  "ensureFutureTxSpace cfg s =
     (let size = tbl_count (futureTxTable s) in
      if size \<ge> maxFutureTxs cfg then
        (case tbl_First (futureTxTable s) of
           None \<Rightarrow> s
         | Some first \<Rightarrow>
             (case txId first of
                None \<Rightarrow> s
              | Some i \<Rightarrow>
                  (let newFirstId = i + (size - maxFutureTxs cfg + 1)
                   in s\<lparr>futureTxTable := tbl_clearBeforeId newFirstId (futureTxTable s)\<rparr>)))
      else s)"

definition isRewardBetter :: "TransactionData \<Rightarrow> TransactionData \<Rightarrow> bool" where
  "isRewardBetter left right = (tokenRewardAmount left > tokenRewardAmount right)"

text \<open>
  The pool calls of \<^verbatim>\<open>replaceReadyTx\<close> are issued in order and their promises
  collected; \<^verbatim>\<open>Promise.all\<close> at the end throws the first failure, after every
  call has been made. The table is therefore threaded together with the first
  failure so far.
\<close>

definition settle :: "error option \<Rightarrow> error + TxTable \<Rightarrow> TxTable \<Rightarrow> TxTable \<times> error option" where
  "settle err res t =
     (case res of
        Inl e \<Rightarrow> (t, (case err of None \<Rightarrow> Some e | Some e0 \<Rightarrow> Some e0))
      | Inr t' \<Rightarrow> (t', err))"

text \<open>One \<^verbatim>\<open>remove(tx)\<close>, \<^verbatim>\<open>add(newTx)\<close> pair, \<^verbatim>\<open>newTx\<close> being \<^verbatim>\<open>tx\<close> less its id.\<close>

definition reinsert :: "TransactionData \<Rightarrow> TxTable \<times> error option \<Rightarrow> TxTable \<times> error option" where
  "reinsert tx st =
     (let t1 = tbl_remove [tx] (fst st)
      in settle (snd st) (tbl_add [tx\<lparr>txId := None\<rparr>] t1) t1)"

lemma sorted_findAfter: "sorted (map nonce (tbl_findAfter t pk n limit))"
proof -
  have "sorted (take limit (map nonce (sort_key nonce
          (filter (\<lambda>r. pubKey r = pk \<and> n < nonce r) (rows t)))))"
    by (rule sorted_wrt_take) simp
  then show ?thesis by (simp add: tbl_findAfter_def take_map)
qed

lemma set_findAfter:
  "set (tbl_findAfter t pk n limit) \<subseteq> set (filter (\<lambda>r. pubKey r = pk \<and> n < nonce r) (rows t))"
proof -
  have "set (take limit (sort_key nonce (filter (\<lambda>r. pubKey r = pk \<and> n < nonce r) (rows t))))
        \<subseteq> set (sort_key nonce (filter (\<lambda>r. pubKey r = pk \<and> n < nonce r) (rows t)))"
    by (rule set_take_subset)
  then show ?thesis by (simp add: tbl_findAfter_def)
qed

lemma nonce_le_last:
  assumes "sorted (map nonce xs)" and "x \<in> set xs"
  shows "nonce x \<le> nonce (last xs)"
proof -
  from assms(2) have ne: "xs \<noteq> []" by auto
  from assms(2) obtain i where i: "i < length xs" "xs ! i = x"
    by (auto simp: in_set_conv_nth)
  have "map nonce xs ! i \<le> map nonce xs ! (length xs - 1)"
    using assms(1) i(1) by (intro sorted_nth_mono) auto
  with i ne show ?thesis by (simp add: last_conv_nth)
qed

lemma rows_reinsert_bound:
  assumes "nonce x \<le> b"
  shows "length (filter (\<lambda>r. pubKey r = pk \<and> b < nonce r) (rows (fst (reinsert x st))))
         \<le> length (filter (\<lambda>r. pubKey r = pk \<and> b < nonce r) (rows (fst st)))"
proof -
  have le: "length (filter P (filter Q xs)) \<le> length (filter P xs)" for P Q and xs :: "TransactionData list"
    by (induction xs) auto
  show ?thesis
    using assms le [of "\<lambda>r. pubKey r = pk \<and> b < nonce r" "\<lambda>r. txId r \<noteq> txId x" "rows (fst st)"]
    by (auto simp: reinsert_def settle_def tbl_remove_def Let_def split: sum.splits if_splits)
qed

lemma rows_fold_reinsert_bound:
  assumes "\<forall>x \<in> set xs. nonce x \<le> b"
  shows "length (filter (\<lambda>r. pubKey r = pk \<and> b < nonce r) (rows (fst (fold reinsert xs st))))
         \<le> length (filter (\<lambda>r. pubKey r = pk \<and> b < nonce r) (rows (fst st)))"
  using assms
proof (induction xs arbitrary: st)
  case Nil
  then show ?case by simp
next
  case (Cons x xs)
  have "length (filter (\<lambda>r. pubKey r = pk \<and> b < nonce r) (rows (fst (fold reinsert xs (reinsert x st)))))
        \<le> length (filter (\<lambda>r. pubKey r = pk \<and> b < nonce r) (rows (fst (reinsert x st))))"
    using Cons by simp
  also have "\<dots> \<le> length (filter (\<lambda>r. pubKey r = pk \<and> b < nonce r) (rows (fst st)))"
    using Cons.prems by (intro rows_reinsert_bound) simp
  finally show ?case by simp
qed

lemma followups_decrease:
  assumes ne: "tbl_findAfter (fst st) pk n limit \<noteq> []"
  shows "length (filter (\<lambda>r. pubKey r = pk \<and> nonce (last (tbl_findAfter (fst st) pk n limit)) < nonce r)
                   (rows (fst (fold reinsert (tbl_findAfter (fst st) pk n limit) st))))
         < length (filter (\<lambda>r. pubKey r = pk \<and> n < nonce r) (rows (fst st)))"
proof -
  let ?F = "tbl_findAfter (fst st) pk n limit"
  let ?b = "nonce (last ?F)"
  let ?xs = "filter (\<lambda>r. pubKey r = pk \<and> n < nonce r) (rows (fst st))"
  have lastin: "last ?F \<in> set ?xs"
    using ne set_findAfter [of "fst st" pk n limit] last_in_set [OF ne] by blast
  then have nb: "n < ?b" by simp
  have "length (filter (\<lambda>r. pubKey r = pk \<and> ?b < nonce r) (rows (fst (fold reinsert ?F st))))
        \<le> length (filter (\<lambda>r. pubKey r = pk \<and> ?b < nonce r) (rows (fst st)))"
    by (intro rows_fold_reinsert_bound ballI nonce_le_last sorted_findAfter)
  also have "filter (\<lambda>r. pubKey r = pk \<and> ?b < nonce r) (rows (fst st))
             = filter (\<lambda>r. ?b < nonce r) ?xs"
    using nb by (auto intro!: filter_cong)
  also have "length (filter (\<lambda>r. ?b < nonce r) ?xs) < length ?xs"
    using lastin by (intro length_filter_less [of "last ?F"]) auto
  finally show ?thesis .
qed

text \<open>
  The \<^verbatim>\<open>while (true)\<close> loop of \<^verbatim>\<open>replaceReadyTx\<close>: page after page of the
  account's records above the last nonce replaced, each record removed and added
  again. It ends at an empty page or at a page shorter than the limit.
\<close>

function replaceFollowupTxs ::
  "Config \<Rightarrow> string \<Rightarrow> nat \<Rightarrow> TxTable \<times> error option \<Rightarrow> TxTable \<times> error option" where
  "replaceFollowupTxs cfg pk lastNonceReplaced st =
     (let followupTxs = tbl_findAfter (fst st) pk lastNonceReplaced (txQueryLimit cfg) in
      if followupTxs = [] then st
      else
        (let st' = fold reinsert followupTxs st in
         if length followupTxs < txQueryLimit cfg then st'
         else replaceFollowupTxs cfg pk (nonce (last followupTxs)) st'))"
  by pat_completeness auto
termination
proof (relation "measure (\<lambda>(cfg, pk, n, st).
        length (filter (\<lambda>r. pubKey r = pk \<and> n < nonce r) (rows (fst st))))")
  show "wf (measure (\<lambda>(cfg, pk, n, st).
        length (filter (\<lambda>r. pubKey r = pk \<and> n < nonce r) (rows (fst st)))))"
    by (rule wf_measure)
next
  fix cfg :: Config and pk :: string and lastNonceReplaced :: nat
    and st :: "TxTable \<times> error option" and followupTxs st'
  assume "followupTxs = tbl_findAfter (fst st) pk lastNonceReplaced (txQueryLimit cfg)"
    and "followupTxs \<noteq> []" and "st' = fold reinsert followupTxs st"
  then show "((cfg, pk, nonce (last followupTxs), st'), (cfg, pk, lastNonceReplaced, st))
      \<in> measure (\<lambda>(cfg, pk, n, st).
        length (filter (\<lambda>r. pubKey r = pk \<and> n < nonce r) (rows (fst st))))"
    using followups_decrease [of st pk lastNonceReplaced "txQueryLimit cfg"] by simp
qed

declare replaceFollowupTxs.simps [simp del]

text \<open>
  \<^verbatim>\<open>replaceReadyTx\<close>. \<^verbatim>\<open>lowestAcceptableNonce.sub(1)\<close> is a subtraction of
  \<^verbatim>\<open>BigNumber\<close>s, which does not stop at 0.
\<close>

definition replaceReadyTx ::
  "Config \<Rightarrow> nat \<Rightarrow> TransactionData \<Rightarrow> TxService
   \<Rightarrow> TxService \<times> (error + AddTransactionFailure list)" where
  "replaceReadyTx cfg lowestAcceptableNonce txData s =
     (case tbl_find (readyTxTable s) (pubKey txData) (nonce txData) of
        None \<Rightarrow> (s, Inr [DuplicateNonce (nonce txData)])
      | Some existingTx \<Rightarrow>
          if \<not> isRewardBetter txData existingTx then
            (s, Inr [InsufficientReward (tokenRewardAmount txData) (tokenRewardAmount existingTx)])
          else
            (let t1 = tbl_remove [existingTx] (readyTxTable s);
                 st = settle None (tbl_add [txData] t1) t1;
                 st' = (if int lowestAcceptableNonce - 1 = int (nonce txData) then st
                        else replaceFollowupTxs cfg (pubKey txData) (nonce txData) st)
             in (s\<lparr>readyTxTable := fst st'\<rparr>,
                 (case snd st' of None \<Rightarrow> Inr [] | Some e \<Rightarrow> Inl e))))"

text \<open>
  \<^verbatim>\<open>add\<close>. The result is the state of the two pools when the call ends and
  either the error thrown or the list of failures returned; \<open>None\<close> is a call
  that does not end.
\<close>

definition add ::
  "WalletService \<Rightarrow> Config \<Rightarrow> TransactionData \<Rightarrow> TxService
   \<Rightarrow> (TxService \<times> (error + AddTransactionFailure list)) option" where
  "add ws cfg txData s =
     (case checkTx ws txData of
        (failures, nextNonce) \<Rightarrow>
          if length failures > 0 then Some (s, Inr failures)
          else
            (case LowestAcceptableNonce s nextNonce (pubKey txData) of
               Inl e \<Rightarrow> Some (s, Inl e)
             | Inr lowestAcceptableNonce \<Rightarrow>
                 if lowestAcceptableNonce > nonce txData then
                   Some (replaceReadyTx cfg lowestAcceptableNonce txData s)
                 else if lowestAcceptableNonce = nonce txData then
                   (case tbl_add [txData] (readyTxTable s) of
                      Inl e \<Rightarrow> Some (s, Inl e)
                    | Inr ready \<Rightarrow>
                        (case tryMoveFutureTxs cfg (pubKey txData) (lowestAcceptableNonce + 1)
                                (s\<lparr>readyTxTable := ready\<rparr>) of
                           None \<Rightarrow> None
                         | Some (s', Some e) \<Rightarrow> Some (s', Inl e)
                         | Some (s', None) \<Rightarrow> Some (s', Inr [])))
                 else
                   (let s1 = ensureFutureTxSpace cfg s in
                    case tbl_add [txData] (futureTxTable s1) of
                      Inl e \<Rightarrow> Some (s1, Inl e)
                    | Inr future \<Rightarrow> Some (s1\<lparr>futureTxTable := future\<rparr>, Inr []))))"

text \<open>
  A sequence of \<^verbatim>\<open>add\<close> calls, one after the other, each on the pools the one
  before left (also when that one threw).
\<close>

fun submitAll ::
  "WalletService \<Rightarrow> Config \<Rightarrow> TransactionData list \<Rightarrow> TxService \<Rightarrow> TxService option" where
  "submitAll ws cfg [] s = Some s"
| "submitAll ws cfg (txData # txs) s =
     (case add ws cfg txData s of
        None \<Rightarrow> None
      | Some (s', res) \<Rightarrow> submitAll ws cfg txs s')"

section \<open>Sample inputs\<close>

definition mkTx :: "string \<Rightarrow> nat \<Rightarrow> nat \<Rightarrow> string \<Rightarrow> TransactionData" where
  "mkTx pk n reward body =
     \<lparr>txId = None, pubKey = pk, nonce = n, tokenRewardAmount = reward, payload = body\<rparr>"

text \<open>A wallet service that accepts every operation, on a ledger where every account's next nonce is \<open>c\<close>.\<close>

definition okWallet :: "nat \<Rightarrow> WalletService" where
  "okWallet c = \<lparr>txFailures = (\<lambda>tx. []), chainNextNonce = (\<lambda>pk. c)\<rparr>"

definition sampleConfig :: Config where
  "sampleConfig = \<lparr>txQueryLimit = 2, maxFutureTxs = 3\<rparr>"

section \<open>Well-formed tables\<close>

text \<open>The records a successful \<^verbatim>\<open>add\<close> appends: the given ones, numbered from the next serial id.\<close>

fun renumber :: "nat \<Rightarrow> TransactionData list \<Rightarrow> TransactionData list" where
  "renumber n [] = []"
| "renumber n (x # xs) = x\<lparr>txId := Some n\<rparr> # renumber (Suc n) xs"

text \<open>
  What every table built from \<open>emptyTable\<close> by the pool's operations satisfies: ids
  grow along the rows and lie below the next serial id, and no (account, nonce)
  pair occurs twice.
\<close>

definition wf_table :: "TxTable \<Rightarrow> bool" where
  "wf_table t \<longleftrightarrow>
     sorted_wrt (<) (map txId (rows t)) \<and>
     (\<forall>r \<in> set (rows t). case txId r of None \<Rightarrow> False | Some i \<Rightarrow> i < nextTxId t) \<and>
     distinct (map (\<lambda>r. (pubKey r, nonce r)) (rows t))"

lemma wf_emptyTable: "wf_table emptyTable"
  by (simp add: wf_table_def emptyTable_def)

lemma renumber_append: "renumber n (xs @ ys) = renumber n xs @ renumber (n + length xs) ys"
  by (induction xs arbitrary: n) auto

lemma length_renumber [simp]: "length (renumber n xs) = length xs"
  by (induction xs arbitrary: n) auto

lemma tbl_add_Inr:
  "tbl_add xs t = Inr t' \<Longrightarrow>
   t' = \<lparr>rows = rows t @ renumber (nextTxId t) xs, nextTxId = nextTxId t + length xs\<rparr>"
proof (induction xs arbitrary: t)
  case Nil
  then show ?case by auto
next
  case (Cons x xs)
  from Cons.prems have
    "tbl_add xs \<lparr>rows = rows t @ [x\<lparr>txId := Some (nextTxId t)\<rparr>], nextTxId = nextTxId t + 1\<rparr> = Inr t'"
    by (auto split: if_splits)
  from Cons.IH [OF this] show ?case by simp
qed

lemma tbl_find_None: "tbl_find t pk n = None \<longleftrightarrow> (pk, n) \<notin> set (map (\<lambda>r. (pubKey r, nonce r)) (rows t))"
  by (auto simp: tbl_find_def find_None_iff)

lemma wf_tbl_add1:
  assumes "wf_table t" and "tbl_find t (pubKey x) (nonce x) = None"
  shows "wf_table \<lparr>rows = rows t @ [x\<lparr>txId := Some (nextTxId t)\<rparr>], nextTxId = Suc (nextTxId t)\<rparr>"
  using assms unfolding wf_table_def tbl_find_None
  by (auto simp: sorted_wrt_append less_option_def split: option.splits)

lemma wf_tbl_add:
  "tbl_add xs t = Inr t' \<Longrightarrow> wf_table t \<Longrightarrow> wf_table t'"
proof (induction xs arbitrary: t)
  case Nil
  then show ?case by auto
next
  case (Cons x xs)
  from Cons.prems(1) have none: "tbl_find t (pubKey x) (nonce x) = None"
    and rest: "tbl_add xs \<lparr>rows = rows t @ [x\<lparr>txId := Some (nextTxId t)\<rparr>], nextTxId = nextTxId t + 1\<rparr> = Inr t'"
    by (auto split: if_splits)
  show ?case
    using Cons.IH [OF rest] wf_tbl_add1 [OF Cons.prems(2) none] by simp
qed

lemma wf_filter: "wf_table t \<Longrightarrow> wf_table (t\<lparr>rows := filter P (rows t)\<rparr>)"
  unfolding wf_table_def
  by (auto simp: sorted_wrt_map sorted_wrt_filter distinct_map_filter split: option.splits)

lemma wf_tbl_remove: "wf_table t \<Longrightarrow> wf_table (tbl_remove xs t)"
  unfolding tbl_remove_def by (rule wf_filter)

lemma wf_tbl_clearBeforeId: "wf_table t \<Longrightarrow> wf_table (tbl_clearBeforeId i t)"
  unfolding tbl_clearBeforeId_def by (rule wf_filter)

section \<open>Rejections\<close>

text \<open>
  Claim C10. Whenever \<^verbatim>\<open>add\<close> returns a list of failures that is not empty
  (from the check, for a duplicate nonce or for an insufficient reward), the two
  pools are as they were before the call.
\<close>

theorem rejection_atomicity:
  "add ws cfg txData s = Some (s', Inr failures) \<Longrightarrow> failures \<noteq> [] \<Longrightarrow> s' = s"
  by (auto simp: add_def replaceReadyTx_def checkTx_def Let_def
      split: if_splits sum.splits option.splits prod.splits)

theorem rejection_atomicity_witness:
  "add \<lparr>txFailures = (\<lambda>tx. [CheckFailure ''invalid-signature'']), chainNextNonce = (\<lambda>pk. 1)\<rparr>
       sampleConfig (mkTx ''a'' 1 0 ''p'') emptyService
     = Some (emptyService, Inr [CheckFailure ''invalid-signature''])
   \<and> [CheckFailure ''invalid-signature''] \<noteq> []
   \<and> emptyService = emptyService"
proof -
  have ret: "add \<lparr>txFailures = (\<lambda>tx. [CheckFailure ''invalid-signature'']), chainNextNonce = (\<lambda>pk. 1)\<rparr>
       sampleConfig (mkTx ''a'' 1 0 ''p'') emptyService
     = Some (emptyService, Inr [CheckFailure ''invalid-signature''])"
    by (simp add: add_def checkTx_def)
  from rejection_atomicity [OF ret] ret show ?thesis by simp
qed

text \<open>
  Claim C9. An operation that passes the check, whose nonce lies below the
  account's lowest acceptable nonce and for which the ready table holds no record
  at (account, nonce), gets the duplicate-nonce failure as the only failure, and
  neither pool changes.
\<close>

theorem duplicate_nonce_on_vanished_target:
  assumes "txFailures ws txData = []"
    and "LowestAcceptableNonce s (chainNextNonce ws (pubKey txData)) (pubKey txData) = Inr l"
    and "nonce txData < l"
    and "tbl_find (readyTxTable s) (pubKey txData) (nonce txData) = None"
  shows "add ws cfg txData s = Some (s, Inr [DuplicateNonce (nonce txData)])"
  using assms by (simp add: add_def replaceReadyTx_def checkTx_def)

theorem duplicate_nonce_on_vanished_target_witness:
  "txFailures (okWallet 5) (mkTx ''a'' 3 0 ''p'') = []
   \<and> LowestAcceptableNonce emptyService (chainNextNonce (okWallet 5) (pubKey (mkTx ''a'' 3 0 ''p'')))
         (pubKey (mkTx ''a'' 3 0 ''p'')) = Inr 5
   \<and> nonce (mkTx ''a'' 3 0 ''p'') < 5
   \<and> tbl_find (readyTxTable emptyService) (pubKey (mkTx ''a'' 3 0 ''p'')) (nonce (mkTx ''a'' 3 0 ''p'')) = None
   \<and> add (okWallet 5) sampleConfig (mkTx ''a'' 3 0 ''p'') emptyService
       = Some (emptyService, Inr [DuplicateNonce 3])"
proof -
  have h1: "txFailures (okWallet 5) (mkTx ''a'' 3 0 ''p'') = []"
    by (simp add: okWallet_def)
  have h2: "LowestAcceptableNonce emptyService (chainNextNonce (okWallet 5) (pubKey (mkTx ''a'' 3 0 ''p'')))
         (pubKey (mkTx ''a'' 3 0 ''p'')) = Inr 5"
    by (simp add: LowestAcceptableNonce_def tbl_nextNonceOf_def emptyService_def emptyTable_def
        okWallet_def)
  have h3: "nonce (mkTx ''a'' 3 0 ''p'') < 5"
    by (simp add: mkTx_def)
  have h4: "tbl_find (readyTxTable emptyService) (pubKey (mkTx ''a'' 3 0 ''p'')) (nonce (mkTx ''a'' 3 0 ''p'')) = None"
    by (simp add: tbl_find_def emptyService_def emptyTable_def)
  from duplicate_nonce_on_vanished_target [OF h1 h2 h3 h4, of sampleConfig] h1 h2 h3 h4
  show ?thesis by (simp add: mkTx_def)
qed

section \<open>The lowest acceptable nonce\<close>

lemma LowestAcceptableNonce_Some:
  "tbl_nextNonceOf (readyTxTable s) pk = Some n \<Longrightarrow> LowestAcceptableNonce s c pk = Inr (max c n)"
  by (simp add: LowestAcceptableNonce_def max_def)

lemma LowestAcceptableNonce_None:
  "tbl_nextNonceOf (readyTxTable s) pk = None \<Longrightarrow>
   LowestAcceptableNonce s c pk = (if 0 < c then Inr c else Inl InvalidBigNumber)"
  by (simp add: LowestAcceptableNonce_def)

lemma add_on_fresh_ledger:
  "add (okWallet 0) cfg txData emptyService = Some (emptyService, Inl InvalidBigNumber)"
  by (simp add: add_def okWallet_def checkTx_def LowestAcceptableNonce_def tbl_nextNonceOf_def
      emptyService_def emptyTable_def)

text \<open>
  Claim C2. With no record of the account in the ready table the lowest
  acceptable nonce is meant to be the chain's next nonce, also when that is 0.
  At 0 the code reaches \<^verbatim>\<open>ethers.BigNumber.from(null)\<close> instead, and \<^verbatim>\<open>add\<close>
  throws.
\<close>

theorem LowestAcceptableNonce_zero_throws:
  "tbl_nextNonceOf (readyTxTable emptyService) pk = None
   \<and> LowestAcceptableNonce emptyService 0 pk = Inl InvalidBigNumber
   \<and> add (okWallet 0) cfg (mkTx pk 0 reward body) emptyService
       = Some (emptyService, Inl InvalidBigNumber)"
  by (simp add: add_on_fresh_ledger)
     (simp add: LowestAcceptableNonce_def tbl_nextNonceOf_def emptyService_def emptyTable_def)

section \<open>Promotion\<close>

text \<open>
  Claim C3. With the chain's next nonce at 0 and empty pools, the operations
  with nonces 2, 1 and 0 of one account are all refused with the error of
  Claim C2: none of them reaches the ready table.
\<close>

theorem promotion_from_nonce_zero_throws:
  "submitAll (okWallet 0) cfg
     [mkTx pk 2 r2 b2, mkTx pk 1 r1 b1, mkTx pk 0 r0 b0] emptyService = Some emptyService
   \<and> add (okWallet 0) cfg (mkTx pk 0 r0 b0) emptyService
       = Some (emptyService, Inl InvalidBigNumber)"
  by (simp add: add_on_fresh_ledger)

text \<open>From a next nonce of 1 on, the same three operations end in the ready table.\<close>

lemma promotion_from_nonce_one:
  "submitAll (okWallet 1) sampleConfig
     [mkTx ''k'' 3 0 ''c'', mkTx ''k'' 2 0 ''b'', mkTx ''k'' 1 0 ''a''] emptyService
   = Some \<lparr>readyTxTable =
             \<lparr>rows = [(mkTx ''k'' 1 0 ''a'')\<lparr>txId := Some 1\<rparr>,
                      (mkTx ''k'' 2 0 ''b'')\<lparr>txId := Some 2\<rparr>,
                      (mkTx ''k'' 3 0 ''c'')\<lparr>txId := Some 3\<rparr>],
              nextTxId = 4\<rparr>,
           futureTxTable = \<lparr>rows = [], nextTxId = 3\<rparr>\<rparr>"
  by code_simp

section \<open>Replacement in the ready table\<close>

lemma wf_ids_distinct: "wf_table t \<Longrightarrow> distinct (map txId (rows t))"
  by (simp add: wf_table_def strict_sorted_iff)

lemma wf_id_less:
  "wf_table t \<Longrightarrow> r \<in> set (rows t) \<Longrightarrow> \<exists>i. txId r = Some i \<and> i < nextTxId t"
  by (auto simp: wf_table_def split: option.splits)

lemma wf_keys_distinct:
  "wf_table t \<Longrightarrow> distinct (map (\<lambda>r. (pubKey r, nonce r)) (rows t))"
  by (simp add: wf_table_def)

lemma same_id_same_row:
  assumes "wf_table t" and "p \<in> set (rows t)" and "r \<in> set (rows t)" and "txId p = txId r"
  shows "p = r"
  using wf_ids_distinct [OF assms(1)] assms(2-4)
  by (meson distinct_map inj_onD)

lemma same_key_same_row:
  assumes "wf_table t" and "p \<in> set (rows t)" and "r \<in> set (rows t)"
    and "pubKey p = pubKey r" and "nonce p = nonce r"
  shows "p = r"
proof -
  have "inj_on (\<lambda>r. (pubKey r, nonce r)) (set (rows t))"
    using wf_keys_distinct [OF assms(1)] by (simp add: distinct_map)
  then show ?thesis using assms(2-5) by (auto dest: inj_onD)
qed

lemma filter_ids:
  assumes "wf_table t" and "set ps = {r \<in> set (rows t). P r}"
  shows "filter (\<lambda>r. txId r \<notin> set (map txId ps)) (rows t) = filter (\<lambda>r. \<not> P r) (rows t)"
proof (rule filter_cong [OF refl])
  fix r assume r: "r \<in> set (rows t)"
  show "(txId r \<notin> set (map txId ps)) = (\<not> P r)"
  proof
    assume "txId r \<notin> set (map txId ps)"
    then have "r \<notin> set ps" by auto
    with r assms(2) show "\<not> P r" by auto
  next
    assume np: "\<not> P r"
    show "txId r \<notin> set (map txId ps)"
    proof
      assume "txId r \<in> set (map txId ps)"
      then obtain p where p: "p \<in> set ps" "txId p = txId r" by auto
      with assms(2) have "p \<in> set (rows t)" "P p" by auto
      with same_id_same_row [OF assms(1) this(1) r p(2)] np show False by simp
    qed
  qed
qed

lemma ids_renumber: "set (map txId (renumber n xs)) = Some ` {n..<n + length xs}"
proof (induction xs arbitrary: n)
  case Nil
  then show ?case by simp
next
  case (Cons x xs)
  have "{n..<n + length (x # xs)} = insert n {Suc n..<Suc n + length xs}" by auto
  with Cons [of "Suc n"] show ?case by simp
qed

text \<open>A table after each record of \<open>ps\<close> has been removed and added again, in this order.\<close>

definition reinsertAll :: "TransactionData list \<Rightarrow> TxTable \<Rightarrow> TxTable" where
  "reinsertAll ps t =
     \<lparr>rows = filter (\<lambda>r. txId r \<notin> set (map txId ps)) (rows t) @ renumber (nextTxId t) ps,
      nextTxId = nextTxId t + length ps\<rparr>"

lemma reinsertAll_Nil: "reinsertAll [] t = t"
  by (simp add: reinsertAll_def)

lemma reinsert_row:
  assumes wf: "wf_table t" and x: "x \<in> set (rows t)"
  shows "reinsert x (t, None) = (reinsertAll [x] t, None)"
proof -
  let ?t1 = "tbl_remove [x] t"
  have "\<And>r. r \<in> set (rows ?t1) \<Longrightarrow> \<not> (pubKey r = pubKey x \<and> nonce r = nonce x)"
    using same_key_same_row [OF wf _ x] by (auto simp: tbl_remove_def)
  then have "tbl_find ?t1 (pubKey x) (nonce x) = None"
    by (auto simp: tbl_find_def find_None_iff)
  then show ?thesis
    by (simp add: reinsert_def settle_def reinsertAll_def tbl_remove_def)
qed

lemma wf_reinsertAll_single:
  assumes wf: "wf_table t" and x: "x \<in> set (rows t)"
  shows "wf_table (reinsertAll [x] t)"
proof -
  let ?t1 = "tbl_remove [x] t"
  have "\<And>r. r \<in> set (rows ?t1) \<Longrightarrow> \<not> (pubKey r = pubKey x \<and> nonce r = nonce x)"
    using same_key_same_row [OF wf _ x] by (auto simp: tbl_remove_def)
  then have none: "tbl_find ?t1 (pubKey (x\<lparr>txId := None\<rparr>)) (nonce (x\<lparr>txId := None\<rparr>)) = None"
    by (auto simp: tbl_find_def find_None_iff)
  from wf_tbl_add1 [OF wf_tbl_remove [OF wf] none]
  show ?thesis by (simp add: reinsertAll_def tbl_remove_def)
qed

lemma reinsertAll_compose:
  assumes wf: "wf_table t" and ys: "set ys \<subseteq> set (rows t)"
  shows "reinsertAll ys (reinsertAll xs t) = reinsertAll (xs @ ys) t"
proof -
  have keep: "filter (\<lambda>r. txId r \<notin> txId ` set ys) (renumber (nextTxId t) xs)
              = renumber (nextTxId t) xs"
  proof (rule filter_True, rule ballI)
    fix r assume "r \<in> set (renumber (nextTxId t) xs)"
    then have "txId r \<in> set (map txId (renumber (nextTxId t) xs))" by simp
    then obtain j where j: "txId r = Some j" "nextTxId t \<le> j"
      unfolding ids_renumber by auto
    show "txId r \<notin> txId ` set ys"
    proof
      assume "txId r \<in> txId ` set ys"
      then obtain y where "y \<in> set ys" "txId y = txId r" by auto
      with ys wf_id_less [OF wf, of y] j show False by auto
    qed
  qed
  have both: "filter (\<lambda>x. txId x \<notin> txId ` set ys \<and> txId x \<notin> txId ` set xs) (rows t)
              = filter (\<lambda>r. txId r \<notin> txId ` set xs \<and> txId r \<notin> txId ` set ys) (rows t)"
    by (rule filter_cong) auto
  show ?thesis
    by (simp add: reinsertAll_def keep renumber_append both)
qed

lemma fold_reinsert:
  assumes "wf_table t" and "set ps \<subseteq> set (rows t)" and "distinct ps"
  shows "fold reinsert ps (t, None) = (reinsertAll ps t, None) \<and> wf_table (reinsertAll ps t)"
  using assms
proof (induction ps arbitrary: t)
  case Nil
  then show ?case by (simp add: reinsertAll_Nil)
next
  case (Cons p ps)
  let ?t1 = "reinsertAll [p] t"
  from Cons.prems have p: "p \<in> set (rows t)" by simp
  have wf1: "wf_table ?t1" by (rule wf_reinsertAll_single [OF Cons.prems(1) p])
  have sub: "set ps \<subseteq> set (rows ?t1)"
  proof
    fix r assume r: "r \<in> set ps"
    with Cons.prems have rt: "r \<in> set (rows t)" and ne: "r \<noteq> p" by auto
    from same_id_same_row [OF Cons.prems(1) rt p] ne have "txId r \<noteq> txId p" by auto
    with rt show "r \<in> set (rows ?t1)" by (simp add: reinsertAll_def)
  qed
  from Cons.prems have d: "distinct ps" by simp
  from Cons.prems have sub0: "set ps \<subseteq> set (rows t)" by simp
  have "fold reinsert (p # ps) (t, None) = fold reinsert ps (?t1, None)"
    by (simp add: reinsert_row [OF Cons.prems(1) p])
  also have "\<dots> = (reinsertAll ps ?t1, None)"
    using Cons.IH [OF wf1 sub d] by simp
  also have "reinsertAll ps ?t1 = reinsertAll (p # ps) t"
    using reinsertAll_compose [OF Cons.prems(1) sub0, of "[p]"] by simp
  finally have eq: "fold reinsert (p # ps) (t, None) = (reinsertAll (p # ps) t, None)" .
  have "wf_table (reinsertAll ps ?t1)" using Cons.IH [OF wf1 sub d] by simp
  then have "wf_table (reinsertAll (p # ps) t)"
    using reinsertAll_compose [OF Cons.prems(1) sub0, of "[p]"] by simp
  with eq show ?case by simp
qed

lemma nonce_renumber: "map nonce (renumber m xs) = map nonce xs"
  by (induction xs arbitrary: m) auto

lemma pubKey_renumber: "map pubKey (renumber m xs) = map pubKey xs"
  by (induction xs arbitrary: m) auto

lemma distinct_nonces_of_account:
  "distinct (map (\<lambda>r. (pubKey r, nonce r)) xs) \<Longrightarrow>
   distinct (map nonce (filter (\<lambda>r. pubKey r = pk \<and> R r) xs))"
proof (induction xs)
  case Nil
  then show ?case by simp
next
  case (Cons x xs)
  then show ?case by (auto simp: image_iff)
qed

lemma strict_nonces_sorted_account:
  assumes "wf_table t"
  shows "sorted_wrt (<) (map nonce (sort_key nonce (filter (\<lambda>r. pubKey r = pk \<and> R r) (rows t))))"
proof -
  let ?xs = "filter (\<lambda>r. pubKey r = pk \<and> R r) (rows t)"
  have "distinct (map nonce ?xs)"
    using assms by (intro distinct_nonces_of_account) (simp add: wf_table_def)
  moreover have "mset (map nonce (sort_key nonce ?xs)) = mset (map nonce ?xs)"
    by simp
  ultimately have "distinct (map nonce (sort_key nonce ?xs))"
    using mset_eq_imp_distinct_iff by blast
  then show ?thesis by (simp add: strict_sorted_iff)
qed

lemma filter_above_last_take:
  assumes strict: "sorted_wrt (<) (map nonce xs)" and n: "0 < n" "n \<le> length xs"
  shows "filter (\<lambda>x. nonce (last (take n xs)) < nonce x) xs = drop n xs"
proof -
  let ?a = "take n xs" and ?b = "drop n xs"
  from n have ne: "?a \<noteq> []" by auto
  have split: "sorted_wrt (<) (map nonce (?a @ ?b))" using strict by simp
  then have sa: "sorted (map nonce ?a)"
    and cross: "\<forall>x \<in> set ?a. \<forall>y \<in> set ?b. nonce x < nonce y"
    unfolding map_append sorted_wrt_append by (auto simp: strict_sorted_iff)
  have "filter (\<lambda>x. nonce (last ?a) < nonce x) ?a = []"
    using nonce_le_last [OF sa] by (auto simp: filter_empty_conv not_less)
  moreover have "filter (\<lambda>x. nonce (last ?a) < nonce x) ?b = ?b"
    using cross last_in_set [OF ne] by (intro filter_True) blast
  ultimately have "filter (\<lambda>x. nonce (last ?a) < nonce x) (?a @ ?b) = ?b"
    unfolding filter_append by simp
  then show ?thesis by simp
qed

lemma rows_distinct: "wf_table t \<Longrightarrow> distinct (rows t)"
  using wf_ids_distinct [of t] by (simp add: distinct_map)

lemma replaceFollowupTxs_unfold:
  assumes "tbl_findAfter t pk n (txQueryLimit cfg) = page"
  shows "replaceFollowupTxs cfg pk n (t, e) =
     (if page = [] then (t, e)
      else if length page < txQueryLimit cfg then fold reinsert page (t, e)
      else replaceFollowupTxs cfg pk (nonce (last page)) (fold reinsert page (t, e)))"
  using assms by (subst replaceFollowupTxs.simps) (simp add: Let_def)

lemma replaceFollowupTxs_spec:
  assumes limit: "0 < txQueryLimit cfg"
  shows "wf_table t \<Longrightarrow>
    replaceFollowupTxs cfg pk n (t, None)
    = (reinsertAll (sort_key nonce (filter (\<lambda>r. pubKey r = pk \<and> n < nonce r) (rows t))) t, None)"
proof (induction "length (filter (\<lambda>r. pubKey r = pk \<and> n < nonce r) (rows t))"
    arbitrary: t n rule: less_induct)
  case less
  let ?L = "txQueryLimit cfg"
  let ?Q = "\<lambda>r. pubKey r = pk \<and> n < nonce r"
  define S where "S = sort_key nonce (filter ?Q (rows t))"
  define page where "page = take ?L S"
  note wf = less.prems
  have page: "tbl_findAfter t pk n ?L = page"
    by (simp add: tbl_findAfter_def page_def S_def)
  note unfold = replaceFollowupTxs_unfold [OF page, of None]
  show ?case
  proof (cases "S = []")
    case True
    then have "page = []" by (simp add: page_def)
    with unfold have "replaceFollowupTxs cfg pk n (t, None) = (t, None)" by simp
    with True show ?thesis by (simp add: reinsertAll_Nil S_def)
  next
    case False
    with limit have pne: "page \<noteq> []" by (simp add: page_def)
    have dS: "distinct S" using rows_distinct [OF wf] by (simp add: S_def)
    have subS: "set S \<subseteq> set (rows t)" by (auto simp: S_def)
    have sub: "set page \<subseteq> set (rows t)"
      using set_take_subset [of ?L S] subS unfolding page_def by blast
    have dpage: "distinct page" unfolding page_def using dS by (rule distinct_take)
    from fold_reinsert [OF wf sub dpage]
    have fold: "fold reinsert page (t, None) = (reinsertAll page t, None)"
      and wf1: "wf_table (reinsertAll page t)" by simp_all
    show ?thesis
    proof (cases "length page < ?L")
      case True
      then have all: "page = S" by (simp add: page_def)
      have "replaceFollowupTxs cfg pk n (t, None) = fold reinsert page (t, None)"
        using pne True unfold by simp
      with fold all show ?thesis by (simp add: S_def)
    next
      case full: False
      then have len: "?L \<le> length S" by (simp add: page_def)
      define n' where "n' = nonce (last page)"
      define t1 where "t1 = reinsertAll page t"
      let ?Q' = "\<lambda>r. pubKey r = pk \<and> n' < nonce r"
      have step: "replaceFollowupTxs cfg pk n (t, None) = replaceFollowupTxs cfg pk n' (t1, None)"
        using pne full unfold fold by (simp add: n'_def t1_def)
      have "last page \<in> set S"
        using last_in_set [OF pne] set_take_subset [of ?L S] unfolding page_def by blast
      then have nn': "n < n'" by (simp add: S_def n'_def)
      have strict: "sorted_wrt (<) (map nonce S)"
        unfolding S_def by (rule strict_nonces_sorted_account [OF wf])
      have "sorted (map nonce S)" by (simp add: S_def)
      then have "sorted (take ?L (map nonce S))" by (rule sorted_wrt_take)
      then have sorted_page: "sorted (map nonce page)" by (simp add: page_def take_map)
      have page_le: "\<And>p. p \<in> set page \<Longrightarrow> nonce p \<le> n'"
        unfolding n'_def by (rule nonce_le_last [OF sorted_page])
      have new_none: "filter ?Q' (renumber (nextTxId t) page) = []"
      proof -
        have "\<And>r. r \<in> set (renumber (nextTxId t) page) \<Longrightarrow> nonce r \<le> n'"
        proof -
          fix r assume "r \<in> set (renumber (nextTxId t) page)"
          then have "nonce r \<in> set (map nonce (renumber (nextTxId t) page))" by simp
          then have "nonce r \<in> set (map nonce page)" by (simp only: nonce_renumber)
          then obtain p where "p \<in> set page" "nonce p = nonce r" by auto
          with page_le [of p] show "nonce r \<le> n'" by simp
        qed
        then have "\<And>r. r \<in> set (renumber (nextTxId t) page) \<Longrightarrow> \<not> ?Q' r"
          by (simp add: not_less)
        then show ?thesis by (simp add: filter_empty_conv)
      qed
      have old_same: "filter ?Q' (filter (\<lambda>r. txId r \<notin> set (map txId page)) (rows t))
                      = filter ?Q' (rows t)"
        unfolding filter_filter
      proof (rule filter_cong [OF refl])
        fix r assume r: "r \<in> set (rows t)"
        have "?Q' r \<Longrightarrow> txId r \<notin> set (map txId page)"
        proof
          assume q: "?Q' r" and "txId r \<in> set (map txId page)"
          then obtain p where p: "p \<in> set page" "txId p = txId r" by auto
          with sub have "p \<in> set (rows t)" by auto
          from same_id_same_row [OF wf this r p(2)] p(1) page_le [of p] q
          show False by simp
        qed
        then show "(txId r \<notin> set (map txId page) \<and> ?Q' r) = ?Q' r" by blast
      qed
      have "filter ?Q' (rows t1) = filter ?Q' (rows t)"
        using new_none old_same by (simp add: reinsertAll_def t1_def)
      also have "\<dots> = filter (\<lambda>r. n' < nonce r) (filter ?Q (rows t))"
        unfolding filter_filter using nn' by (intro filter_cong) auto
      finally have rows1: "filter ?Q' (rows t1) = filter (\<lambda>r. n' < nonce r) (filter ?Q (rows t))" .
      have "sort_key nonce (filter ?Q' (rows t1)) = filter (\<lambda>r. n' < nonce r) S"
        unfolding rows1 S_def by (simp only: filter_sort)
      also have "\<dots> = drop ?L S"
        unfolding n'_def page_def by (rule filter_above_last_take [OF strict limit len])
      finally have S1: "sort_key nonce (filter ?Q' (rows t1)) = drop ?L S" .
      have smaller: "length (filter ?Q' (rows t1)) < length (filter ?Q (rows t))"
      proof -
        have "length (filter ?Q' (rows t1)) = length (sort_key nonce (filter ?Q' (rows t1)))"
          by simp
        also have "\<dots> = length S - ?L" unfolding S1 by simp
        also have "\<dots> < length S" using limit False by simp
        also have "length S = length (filter ?Q (rows t))" by (simp add: S_def)
        finally show ?thesis .
      qed
      have wf1': "wf_table t1" using wf1 by (simp add: t1_def)
      have "replaceFollowupTxs cfg pk n' (t1, None)
            = (reinsertAll (sort_key nonce (filter ?Q' (rows t1))) t1, None)"
        by (rule less.hyps [OF smaller wf1'])
      also have "sort_key nonce (filter ?Q' (rows t1)) = drop ?L S" by (rule S1)
      also have "reinsertAll (drop ?L S) t1 = reinsertAll (page @ drop ?L S) t"
        unfolding t1_def
      proof (rule reinsertAll_compose [OF wf])
        show "set (drop ?L S) \<subseteq> set (rows t)"
          using set_drop_subset [of ?L S] subS by blast
      qed
      also have "page @ drop ?L S = S" by (simp add: page_def)
      finally show ?thesis using step by (simp add: S_def)
    qed
  qed
qed

text \<open>
  The ready table after \<open>txData\<close> has replaced the record of its account and nonce and
  every record of the account above that nonce has been added again, in nonce order.
\<close>

definition replacedTable :: "TransactionData \<Rightarrow> TxTable \<Rightarrow> TxTable" where
  "replacedTable txData t =
     \<lparr>rows = filter (\<lambda>r. \<not> (pubKey r = pubKey txData \<and> nonce txData \<le> nonce r)) (rows t)
             @ renumber (nextTxId t)
                 (txData # sort_key nonce
                    (filter (\<lambda>r. pubKey r = pubKey txData \<and> nonce txData < nonce r) (rows t))),
      nextTxId = nextTxId t + 1
        + length (filter (\<lambda>r. pubKey r = pubKey txData \<and> nonce txData < nonce r) (rows t))\<rparr>"

text \<open>The same without the records above: what a page limit of 0 leaves.\<close>

definition replacedOnly :: "TransactionData \<Rightarrow> TxTable \<Rightarrow> TxTable" where
  "replacedOnly txData t =
     \<lparr>rows = filter (\<lambda>r. \<not> (pubKey r = pubKey txData \<and> nonce r = nonce txData)) (rows t)
             @ [txData\<lparr>txId := Some (nextTxId t)\<rparr>],
      nextTxId = nextTxId t + 1\<rparr>"

lemma tbl_find_Some:
  "tbl_find t pk k = Some ex \<Longrightarrow> ex \<in> set (rows t) \<and> pubKey ex = pk \<and> nonce ex = k"
  by (auto simp: tbl_find_def find_Some_iff)

lemma replace_first_step:
  assumes wf: "wf_table t" and ex: "tbl_find t (pubKey txData) (nonce txData) = Some ex"
  shows "settle None (tbl_add [txData] (tbl_remove [ex] t)) (tbl_remove [ex] t)
         = (replacedOnly txData t, None)"
    and "wf_table (replacedOnly txData t)"
proof -
  let ?pk = "pubKey txData" and ?k = "nonce txData"
  let ?P = "\<lambda>r. pubKey r = ?pk \<and> nonce r = ?k"
  from tbl_find_Some [OF ex] have exin: "ex \<in> set (rows t)" and exk: "?P ex"
    by simp_all
  have only: "r = ex" if "r \<in> set (rows t)" "?P r" for r
    using same_key_same_row [OF wf that(1) exin] that(2) exk by simp
  have "set [ex] = {r \<in> set (rows t). ?P r}"
  proof (rule set_eqI)
    fix r show "(r \<in> set [ex]) = (r \<in> {r \<in> set (rows t). ?P r})"
      using exin exk only [of r] by auto
  qed
  from filter_ids [OF wf this]
  have rows1: "rows (tbl_remove [ex] t) = filter (\<lambda>r. \<not> ?P r) (rows t)"
    by (simp add: tbl_remove_def)
  have none: "tbl_find (tbl_remove [ex] t) ?pk ?k = None"
    unfolding tbl_find_def rows1 by (simp add: find_None_iff)
  have t1: "tbl_remove [ex] t = t\<lparr>rows := filter (\<lambda>r. \<not> ?P r) (rows t)\<rparr>"
    using rows1 by (simp add: tbl_remove_def)
  have added: "tbl_add [txData] (tbl_remove [ex] t) = Inr (replacedOnly txData t)"
    using none by (simp add: replacedOnly_def t1)
  show "settle None (tbl_add [txData] (tbl_remove [ex] t)) (tbl_remove [ex] t)
         = (replacedOnly txData t, None)"
    unfolding added by (simp add: settle_def)
  from wf_tbl_add1 [OF wf_tbl_remove [OF wf, of "[ex]"] none]
  show "wf_table (replacedOnly txData t)"
    by (simp add: replacedOnly_def t1)
qed

lemma replacedTable_eq:
  assumes wf: "wf_table t" and ex: "tbl_find t (pubKey txData) (nonce txData) = Some ex"
  shows "reinsertAll (sort_key nonce (filter (\<lambda>r. pubKey r = pubKey txData \<and> nonce txData < nonce r)
            (rows (replacedOnly txData t)))) (replacedOnly txData t)
         = replacedTable txData t"
proof -
  let ?pk = "pubKey txData" and ?k = "nonce txData"
  let ?Q = "\<lambda>r. pubKey r = ?pk \<and> ?k < nonce r"
  let ?t2 = "replacedOnly txData t"
  have wf2: "wf_table ?t2" by (rule replace_first_step(2) [OF wf ex])
  have Q2: "filter ?Q (rows ?t2) = filter ?Q (rows t)"
    unfolding replacedOnly_def by (simp, intro filter_cong) auto
  let ?S = "sort_key nonce (filter ?Q (rows t))"
  have "set ?S = set (filter ?Q (rows ?t2))" unfolding Q2 by simp
  then have "set ?S = {r \<in> set (rows ?t2). ?Q r}" by simp
  from filter_ids [OF wf2 this]
  have "filter (\<lambda>r. txId r \<notin> set (map txId ?S)) (rows ?t2) = filter (\<lambda>r. \<not> ?Q r) (rows ?t2)" .
  also have "\<dots> = filter (\<lambda>r. \<not> (pubKey r = ?pk \<and> ?k \<le> nonce r)) (rows t)
                   @ [txData\<lparr>txId := Some (nextTxId t)\<rparr>]"
    unfolding replacedOnly_def by (simp, intro filter_cong) auto
  finally show ?thesis
    unfolding Q2 by (simp add: reinsertAll_def replacedTable_def) (simp add: replacedOnly_def)
qed

lemma replaceFollowupTxs_zero:
  "txQueryLimit cfg = 0 \<Longrightarrow> replaceFollowupTxs cfg pk n st = st"
  by (subst replaceFollowupTxs.simps) (simp add: tbl_findAfter_def)

lemma replaceReadyTx_replaces:
  assumes wf: "wf_table (readyTxTable s)"
    and ex: "tbl_find (readyTxTable s) (pubKey txData) (nonce txData) = Some ex"
    and better: "tokenRewardAmount ex < tokenRewardAmount txData"
    and bound: "\<And>r. r \<in> set (rows (readyTxTable s)) \<Longrightarrow> pubKey r = pubKey txData \<Longrightarrow> nonce r < l"
  shows "replaceReadyTx cfg l txData s =
           (s\<lparr>readyTxTable :=
                (if txQueryLimit cfg = 0 then replacedOnly txData (readyTxTable s)
                 else replacedTable txData (readyTxTable s))\<rparr>, Inr [])"
proof -
  let ?t = "readyTxTable s"
  let ?pk = "pubKey txData" and ?k = "nonce txData"
  let ?Q = "\<lambda>r. pubKey r = ?pk \<and> ?k < nonce r"
  let ?t2 = "replacedOnly txData ?t"
  note first = replace_first_step [OF wf ex]
  have unfold: "replaceReadyTx cfg l txData s =
      (s\<lparr>readyTxTable := fst (if int l - 1 = int ?k then (?t2, None)
                                else replaceFollowupTxs cfg ?pk ?k (?t2, None))\<rparr>,
       (case snd (if int l - 1 = int ?k then (?t2, None :: error option)
                  else replaceFollowupTxs cfg ?pk ?k (?t2, None)) of
          None \<Rightarrow> Inr [] | Some e \<Rightarrow> Inl e))"
    using ex better first(1) by (simp add: replaceReadyTx_def isRewardBetter_def Let_def)
  show ?thesis
  proof (cases "txQueryLimit cfg = 0")
    case True
    then show ?thesis using unfold by (simp add: replaceFollowupTxs_zero)
  next
    case False
    then have limit: "0 < txQueryLimit cfg" by simp
    have spec: "replaceFollowupTxs cfg ?pk ?k (?t2, None) = (replacedTable txData ?t, None)"
      using replaceFollowupTxs_spec [OF limit first(2), of ?pk ?k] replacedTable_eq [OF wf ex]
      by simp
    show ?thesis
    proof (cases "int l - 1 = int ?k")
      case True
      then have "\<And>r. r \<in> set (rows ?t) \<Longrightarrow> \<not> ?Q r" using bound by fastforce
      then have noQ: "filter ?Q (rows ?t) = []" by (simp add: filter_empty_conv)
      have "filter (\<lambda>r. \<not> (pubKey r = ?pk \<and> ?k \<le> nonce r)) (rows ?t)
            = filter (\<lambda>r. \<not> (pubKey r = ?pk \<and> nonce r = ?k)) (rows ?t)"
        using True bound by (intro filter_cong) fastforce+
      then have "replacedTable txData ?t = ?t2"
        by (simp add: replacedTable_def replacedOnly_def noQ)
      then show ?thesis using unfold True False by simp
    next
      case False
      then show ?thesis using unfold spec limit by simp
    qed
  qed
qed

lemma tbl_nextNonceOf_bound:
  assumes "tbl_nextNonceOf t pk = Some n" and "r \<in> set (rows t)" and "pubKey r = pk"
  shows "nonce r < n"
proof -
  let ?xs = "filter (\<lambda>r. pubKey r = pk) (rows t)"
  from assms(2,3) have rin: "r \<in> set ?xs" by simp
  have ne: "?xs \<noteq> []"
  proof
    assume "?xs = []"
    with rin show False by (simp only: set_simps empty_iff)
  qed
  then obtain y ys where ys: "?xs = y # ys" by (cases ?xs) auto
  with assms(1) have n: "n = Max (set (map nonce ?xs)) + 1"
    by (simp add: tbl_nextNonceOf_def)
  have "nonce r \<le> Max (set (map nonce ?xs))"
    using rin by (intro Max_ge) auto
  with n show ?thesis by simp
qed

lemma tbl_nextNonceOf_None:
  "tbl_nextNonceOf t pk = None \<longleftrightarrow> filter (\<lambda>r. pubKey r = pk) (rows t) = []"
  by (simp add: tbl_nextNonceOf_def split: list.splits)

lemma LowestAcceptableNonce_bound:
  assumes "LowestAcceptableNonce s c pk = Inr l"
    and "r \<in> set (rows (readyTxTable s))" and "pubKey r = pk"
  shows "nonce r < l"
proof (cases "tbl_nextNonceOf (readyTxTable s) pk")
  case None
  with assms(2,3) show ?thesis by (auto simp: tbl_nextNonceOf_None filter_empty_conv)
next
  case (Some n)
  from tbl_nextNonceOf_bound [OF Some assms(2,3)] assms(1) Some
  show ?thesis by (simp add: LowestAcceptableNonce_Some)
qed

lemma LowestAcceptableNonce_returns:
  assumes "r \<in> set (rows (readyTxTable s))" and "pubKey r = pk"
  shows "\<exists>l. LowestAcceptableNonce s c pk = Inr l"
proof (cases "tbl_nextNonceOf (readyTxTable s) pk")
  case None
  with assms show ?thesis by (auto simp: tbl_nextNonceOf_None filter_empty_conv)
next
  case (Some n)
  then show ?thesis by (simp add: LowestAcceptableNonce_Some)
qed

lemma add_replace_branch:
  assumes ok: "txFailures ws txData = []"
    and ex: "tbl_find (readyTxTable s) (pubKey txData) (nonce txData) = Some ex"
  shows "\<exists>l. add ws cfg txData s = Some (replaceReadyTx cfg l txData s)
             \<and> (\<forall>r \<in> set (rows (readyTxTable s)). pubKey r = pubKey txData \<longrightarrow> nonce r < l)"
proof -
  from tbl_find_Some [OF ex]
  have exin: "ex \<in> set (rows (readyTxTable s))" and exk: "pubKey ex = pubKey txData" "nonce ex = nonce txData"
    by simp_all
  from LowestAcceptableNonce_returns [OF exin exk(1)]
  obtain l where l: "LowestAcceptableNonce s (chainNextNonce ws (pubKey txData)) (pubKey txData) = Inr l"
    by blast
  from LowestAcceptableNonce_bound [OF l exin exk(1)] exk have "nonce txData < l" by simp
  with ok l have "add ws cfg txData s = Some (replaceReadyTx cfg l txData s)"
    by (simp add: add_def checkTx_def)
  with LowestAcceptableNonce_bound [OF l] show ?thesis by blast
qed

lemma add_replaces:
  assumes wf: "wf_table (readyTxTable s)"
    and ok: "txFailures ws txData = []"
    and ex: "tbl_find (readyTxTable s) (pubKey txData) (nonce txData) = Some ex"
    and better: "tokenRewardAmount ex < tokenRewardAmount txData"
  shows "add ws cfg txData s =
           Some (s\<lparr>readyTxTable :=
                (if txQueryLimit cfg = 0 then replacedOnly txData (readyTxTable s)
                 else replacedTable txData (readyTxTable s))\<rparr>, Inr [])"
proof -
  from add_replace_branch [OF ok ex, of cfg] obtain l
    where l: "add ws cfg txData s = Some (replaceReadyTx cfg l txData s)"
      and bound: "\<And>r. r \<in> set (rows (readyTxTable s)) \<Longrightarrow> pubKey r = pubKey txData \<Longrightarrow> nonce r < l"
    by blast
  show ?thesis
    unfolding l by (simp only: replaceReadyTx_replaces [OF wf ex better bound])
qed

lemma add_insufficient_reward:
  assumes ok: "txFailures ws txData = []"
    and ex: "tbl_find (readyTxTable s) (pubKey txData) (nonce txData) = Some ex"
    and worse: "tokenRewardAmount txData \<le> tokenRewardAmount ex"
  shows "add ws cfg txData s =
           Some (s, Inr [InsufficientReward (tokenRewardAmount txData) (tokenRewardAmount ex)])"
proof -
  from add_replace_branch [OF ok ex, of cfg] obtain l
    where l: "add ws cfg txData s = Some (replaceReadyTx cfg l txData s)" by blast
  show ?thesis
    unfolding l using ex worse by (simp add: replaceReadyTx_def isRewardBetter_def)
qed

lemma find_after_miss:
  "\<forall>x \<in> set xs. \<not> P x \<Longrightarrow> find P (xs @ ys) = find P ys"
  by (induction xs) auto

lemma find_replacedTable:
  "tbl_find (replacedTable txData t) (pubKey txData) (nonce txData)
   = Some (txData\<lparr>txId := Some (nextTxId t)\<rparr>)"
proof -
  have "find (\<lambda>r. pubKey r = pubKey txData \<and> nonce r = nonce txData)
          (filter (\<lambda>r. \<not> (pubKey r = pubKey txData \<and> nonce txData \<le> nonce r)) (rows t) @ ys)
        = find (\<lambda>r. pubKey r = pubKey txData \<and> nonce r = nonce txData) ys" for ys
    by (rule find_after_miss) auto
  then show ?thesis
    unfolding tbl_find_def replacedTable_def by simp
qed

lemma find_replacedOnly:
  "tbl_find (replacedOnly txData t) (pubKey txData) (nonce txData)
   = Some (txData\<lparr>txId := Some (nextTxId t)\<rparr>)"
proof -
  have "find (\<lambda>r. pubKey r = pubKey txData \<and> nonce r = nonce txData)
          (filter (\<lambda>r. \<not> (pubKey r = pubKey txData \<and> nonce r = nonce txData)) (rows t) @ ys)
        = find (\<lambda>r. pubKey r = pubKey txData \<and> nonce r = nonce txData) ys" for ys
    by (rule find_after_miss) simp
  then show ?thesis
    unfolding tbl_find_def replacedOnly_def by simp
qed

text \<open>
  Claim C4. The ready table holds a record for the account and nonce of an
  operation that passes the check. If the operation's reward is not greater than
  the record's, \<^verbatim>\<open>add\<close> returns the insufficient-reward failure alone and leaves
  the pools as they are. If it is greater, \<^verbatim>\<open>add\<close> returns no failure, and the
  record then found for the account and nonce is the new operation, under the
  next serial id.
\<close>

theorem replacement_requires_strict_improvement:
  assumes "wf_table (readyTxTable s)"
    and "txFailures ws txData = []"
    and "tbl_find (readyTxTable s) (pubKey txData) (nonce txData) = Some existingTx"
  shows "(tokenRewardAmount txData \<le> tokenRewardAmount existingTx \<longrightarrow>
            add ws cfg txData s
            = Some (s, Inr [InsufficientReward (tokenRewardAmount txData)
                              (tokenRewardAmount existingTx)]))
       \<and> (tokenRewardAmount existingTx < tokenRewardAmount txData \<longrightarrow>
            (\<exists>s'. add ws cfg txData s = Some (s', Inr [])
               \<and> tbl_find (readyTxTable s') (pubKey txData) (nonce txData)
                   = Some (txData\<lparr>txId := Some (nextTxId (readyTxTable s))\<rparr>)))"
proof (intro conjI impI)
  assume "tokenRewardAmount txData \<le> tokenRewardAmount existingTx"
  then show "add ws cfg txData s
            = Some (s, Inr [InsufficientReward (tokenRewardAmount txData)
                              (tokenRewardAmount existingTx)])"
    by (rule add_insufficient_reward [OF assms(2,3)])
next
  assume "tokenRewardAmount existingTx < tokenRewardAmount txData"
  from add_replaces [OF assms this, of cfg]
  show "\<exists>s'. add ws cfg txData s = Some (s', Inr [])
               \<and> tbl_find (readyTxTable s') (pubKey txData) (nonce txData)
                   = Some (txData\<lparr>txId := Some (nextTxId (readyTxTable s))\<rparr>)"
    by (auto simp: find_replacedTable find_replacedOnly)
qed

text \<open>Three operations of one account in the ready table, with nonces 1, 2 and 3 and reward 4.\<close>

definition threeReady :: TxService where
  "threeReady =
     \<lparr>readyTxTable =
        \<lparr>rows = [(mkTx ''a'' 1 4 ''x'')\<lparr>txId := Some 1\<rparr>,
                 (mkTx ''a'' 2 4 ''y'')\<lparr>txId := Some 2\<rparr>,
                 (mkTx ''a'' 3 4 ''z'')\<lparr>txId := Some 3\<rparr>],
         nextTxId = 4\<rparr>,
      futureTxTable = emptyTable\<rparr>"

lemma threeReady_reached:
  "submitAll (okWallet 1) sampleConfig
     [mkTx ''a'' 1 4 ''x'', mkTx ''a'' 2 4 ''y'', mkTx ''a'' 3 4 ''z''] emptyService
   = Some threeReady"
  by code_simp

lemma wf_threeReady: "wf_table (readyTxTable threeReady)"
  by (simp add: wf_table_def threeReady_def mkTx_def)

theorem replacement_requires_strict_improvement_witness:
  "wf_table (readyTxTable threeReady)
   \<and> txFailures (okWallet 1) (mkTx ''a'' 2 4 ''n'') = []
   \<and> tbl_find (readyTxTable threeReady) (pubKey (mkTx ''a'' 2 4 ''n'')) (nonce (mkTx ''a'' 2 4 ''n''))
       = Some ((mkTx ''a'' 2 4 ''y'')\<lparr>txId := Some 2\<rparr>)
   \<and> tokenRewardAmount (mkTx ''a'' 2 4 ''n'') \<le> tokenRewardAmount ((mkTx ''a'' 2 4 ''y'')\<lparr>txId := Some 2\<rparr>)
   \<and> add (okWallet 1) sampleConfig (mkTx ''a'' 2 4 ''n'') threeReady
       = Some (threeReady, Inr [InsufficientReward 4 4])
   \<and> txFailures (okWallet 1) (mkTx ''a'' 2 5 ''n'') = []
   \<and> tbl_find (readyTxTable threeReady) (pubKey (mkTx ''a'' 2 5 ''n'')) (nonce (mkTx ''a'' 2 5 ''n''))
       = Some ((mkTx ''a'' 2 4 ''y'')\<lparr>txId := Some 2\<rparr>)
   \<and> tokenRewardAmount ((mkTx ''a'' 2 4 ''y'')\<lparr>txId := Some 2\<rparr>) < tokenRewardAmount (mkTx ''a'' 2 5 ''n'')
   \<and> (\<exists>s'. add (okWallet 1) sampleConfig (mkTx ''a'' 2 5 ''n'') threeReady = Some (s', Inr [])
          \<and> tbl_find (readyTxTable s') ''a'' 2 = Some ((mkTx ''a'' 2 5 ''n'')\<lparr>txId := Some 4\<rparr>))"
proof -
  have ok: "txFailures (okWallet 1) tx = []" for tx by (simp add: okWallet_def)
  have f1: "tbl_find (readyTxTable threeReady) (pubKey (mkTx ''a'' 2 4 ''n'')) (nonce (mkTx ''a'' 2 4 ''n''))
       = Some ((mkTx ''a'' 2 4 ''y'')\<lparr>txId := Some 2\<rparr>)"
    by (simp add: tbl_find_def threeReady_def mkTx_def)
  have f2: "tbl_find (readyTxTable threeReady) (pubKey (mkTx ''a'' 2 5 ''n'')) (nonce (mkTx ''a'' 2 5 ''n''))
       = Some ((mkTx ''a'' 2 4 ''y'')\<lparr>txId := Some 2\<rparr>)"
    by (simp add: tbl_find_def threeReady_def mkTx_def)
  have r1: "tokenRewardAmount (mkTx ''a'' 2 4 ''n'') \<le> tokenRewardAmount ((mkTx ''a'' 2 4 ''y'')\<lparr>txId := Some 2\<rparr>)"
    and r2: "tokenRewardAmount ((mkTx ''a'' 2 4 ''y'')\<lparr>txId := Some 2\<rparr>) < tokenRewardAmount (mkTx ''a'' 2 5 ''n'')"
    by (simp_all add: mkTx_def)
  have n4: "nextTxId (readyTxTable threeReady) = 4" by (simp add: threeReady_def)
  from replacement_requires_strict_improvement [OF wf_threeReady ok f1, of sampleConfig] r1
  have a1: "add (okWallet 1) sampleConfig (mkTx ''a'' 2 4 ''n'') threeReady
       = Some (threeReady, Inr [InsufficientReward 4 4])"
    by (simp add: mkTx_def)
  from replacement_requires_strict_improvement [OF wf_threeReady ok f2, of sampleConfig] r2
  have a2: "\<exists>s'. add (okWallet 1) sampleConfig (mkTx ''a'' 2 5 ''n'') threeReady = Some (s', Inr [])
          \<and> tbl_find (readyTxTable s') ''a'' 2 = Some ((mkTx ''a'' 2 5 ''n'')\<lparr>txId := Some 4\<rparr>)"
    by (simp add: mkTx_def n4)
  from wf_threeReady ok f1 f2 r1 r2 a1 a2 show ?thesis by blast
qed

lemma strip_renumber:
  "map (\<lambda>r. r\<lparr>txId := None\<rparr>) (renumber m xs) = map (\<lambda>r. r\<lparr>txId := None\<rparr>) xs"
  by (induction xs arbitrary: m) auto

lemma txId_renumber: "map txId (renumber m xs) = map Some [m..<m + length xs]"
proof (induction xs arbitrary: m)
  case Nil
  then show ?case by simp
next
  case (Cons x xs)
  have "[m..<m + length (x # xs)] = m # [Suc m..<Suc m + length xs]"
    using upt_conv_Cons [of m "m + Suc (length xs)"] by simp
  with Cons [of "Suc m"] show ?case by simp
qed

lemma filter_renumber_all:
  assumes "\<And>r. r \<in> set xs \<Longrightarrow> P (pubKey r) (nonce r)"
  shows "filter (\<lambda>r. P (pubKey r) (nonce r)) (renumber m xs) = renumber m xs"
  using assms by (induction xs arbitrary: m) auto

lemma filter_renumber_none:
  assumes "\<And>r. r \<in> set xs \<Longrightarrow> \<not> P (pubKey r) (nonce r)"
  shows "filter (\<lambda>r. P (pubKey r) (nonce r)) (renumber m xs) = []"
  using assms by (induction xs arbitrary: m) auto

lemma rows_replacedTable:
  "rows (replacedTable txData t) =
     filter (\<lambda>r. \<not> (pubKey r = pubKey txData \<and> nonce txData \<le> nonce r)) (rows t)
     @ [txData\<lparr>txId := Some (nextTxId t)\<rparr>]
     @ renumber (nextTxId t + 1)
         (sort_key nonce (filter (\<lambda>r. pubKey r = pubKey txData \<and> nonce txData < nonce r) (rows t)))"
  by (simp add: replacedTable_def)

lemma replacedTable_higher:
  "filter (\<lambda>r. pubKey r = pubKey txData \<and> nonce txData < nonce r) (rows (replacedTable txData t))
   = renumber (nextTxId t + 1)
       (sort_key nonce (filter (\<lambda>r. pubKey r = pubKey txData \<and> nonce txData < nonce r) (rows t)))"
proof -
  let ?H = "\<lambda>r. pubKey r = pubKey txData \<and> nonce txData < nonce r"
  have a: "filter ?H (filter (\<lambda>r. \<not> (pubKey r = pubKey txData \<and> nonce txData \<le> nonce r)) (rows t)) = []"
    by (auto simp: filter_empty_conv)
  have b: "filter ?H (renumber m (sort_key nonce (filter ?H (rows t))))
           = renumber m (sort_key nonce (filter ?H (rows t)))" for m
    by (rule filter_renumber_all [where P = "\<lambda>p n. p = pubKey txData \<and> nonce txData < n"]) simp
  have c: "filter ?H [txData\<lparr>txId := Some (nextTxId t)\<rparr>] = []" by simp
  show ?thesis
    by (simp only: rows_replacedTable filter_append a b c append_Nil)
qed

lemma replacedTable_others:
  "filter (\<lambda>r. \<not> (pubKey r = pubKey txData \<and> nonce txData \<le> nonce r)) (rows (replacedTable txData t))
   = filter (\<lambda>r. \<not> (pubKey r = pubKey txData \<and> nonce txData \<le> nonce r)) (rows t)"
proof -
  let ?O = "\<lambda>r. \<not> (pubKey r = pubKey txData \<and> nonce txData \<le> nonce r)"
  let ?H = "\<lambda>r. pubKey r = pubKey txData \<and> nonce txData < nonce r"
  have a: "filter ?O (filter ?O (rows t)) = filter ?O (rows t)" by simp
  have b: "filter ?O (renumber m (sort_key nonce (filter ?H (rows t)))) = []" for m
    by (rule filter_renumber_none [where P = "\<lambda>p n. \<not> (p = pubKey txData \<and> nonce txData \<le> n)"])
       simp
  have c: "filter ?O [txData\<lparr>txId := Some (nextTxId t)\<rparr>] = []" by simp
  show ?thesis
    by (simp only: rows_replacedTable filter_append a b c append_Nil2)
qed

lemma replacedTable_at:
  "filter (\<lambda>r. pubKey r = pubKey txData \<and> nonce r = nonce txData) (rows (replacedTable txData t))
   = [txData\<lparr>txId := Some (nextTxId t)\<rparr>]"
proof -
  let ?A = "\<lambda>r. pubKey r = pubKey txData \<and> nonce r = nonce txData"
  let ?H = "\<lambda>r. pubKey r = pubKey txData \<and> nonce txData < nonce r"
  have a: "filter ?A (filter (\<lambda>r. \<not> (pubKey r = pubKey txData \<and> nonce txData \<le> nonce r)) (rows t)) = []"
    by (auto simp: filter_empty_conv)
  have b: "filter ?A (renumber m (sort_key nonce (filter ?H (rows t)))) = []" for m
    by (rule filter_renumber_none [where P = "\<lambda>p n. p = pubKey txData \<and> n = nonce txData"])
       simp
  have c: "filter ?A [txData\<lparr>txId := Some (nextTxId t)\<rparr>] = [txData\<lparr>txId := Some (nextTxId t)\<rparr>]"
    by simp
  show ?thesis
    by (simp only: rows_replacedTable filter_append a b c append_Nil append_Nil2)
qed

lemma mset_map_filter_split:
  assumes "\<And>x. x \<in> set xs \<Longrightarrow> \<not> (P x \<and> Q x)"
  shows "mset (map f (filter (\<lambda>x. P x \<or> Q x) xs))
         = mset (map f (filter P xs)) + mset (map f (filter Q xs))"
  using assms by (induction xs) auto

lemma replacedTable_values:
  "mset (map (\<lambda>r. r\<lparr>txId := None\<rparr>)
          (filter (\<lambda>r. \<not> (pubKey r = pubKey txData \<and> nonce r = nonce txData))
             (rows (replacedTable txData t))))
   = mset (map (\<lambda>r. r\<lparr>txId := None\<rparr>)
          (filter (\<lambda>r. \<not> (pubKey r = pubKey txData \<and> nonce r = nonce txData)) (rows t)))"
proof -
  let ?A = "\<lambda>r. pubKey r = pubKey txData \<and> nonce r = nonce txData"
  let ?O = "\<lambda>r. \<not> (pubKey r = pubKey txData \<and> nonce txData \<le> nonce r)"
  let ?H = "\<lambda>r. pubKey r = pubKey txData \<and> nonce txData < nonce r"
  let ?S = "sort_key nonce (filter ?H (rows t))"
  let ?strip = "\<lambda>r. r\<lparr>txId := None\<rparr>"
  have a: "filter (\<lambda>r. \<not> ?A r) (filter ?O (rows t)) = filter ?O (rows t)"
    by (rule filter_True) auto
  have b: "filter (\<lambda>r. \<not> ?A r) (renumber m ?S) = renumber m ?S" for m
    by (rule filter_renumber_all [where P = "\<lambda>p n. \<not> (p = pubKey txData \<and> n = nonce txData)"])
       auto
  have c: "filter (\<lambda>r. \<not> ?A r) [txData\<lparr>txId := Some (nextTxId t)\<rparr>] = []" by simp
  have "filter (\<lambda>r. \<not> ?A r) (rows (replacedTable txData t))
        = filter ?O (rows t) @ renumber (nextTxId t + 1) ?S"
    by (simp only: rows_replacedTable filter_append a b c append_Nil)
  then have "mset (map ?strip (filter (\<lambda>r. \<not> ?A r) (rows (replacedTable txData t))))
        = mset (map ?strip (filter ?O (rows t))) + mset (map ?strip ?S)"
    by (simp add: strip_renumber)
  also have "mset (map ?strip ?S) = mset (map ?strip (filter ?H (rows t)))"
    by simp
  also have "mset (map ?strip (filter ?O (rows t))) + mset (map ?strip (filter ?H (rows t)))
        = mset (map ?strip (filter (\<lambda>r. ?O r \<or> ?H r) (rows t)))"
    by (rule mset_map_filter_split [symmetric]) auto
  also have "filter (\<lambda>r. ?O r \<or> ?H r) (rows t) = filter (\<lambda>r. \<not> ?A r) (rows t)"
    by (rule filter_cong) auto
  finally show ?thesis .
qed

text \<open>
  Claim C5. When a replacement succeeds (with a positive \<^verbatim>\<open>txQueryLimit\<close>), the
  account's records with a higher nonce are in the ready table afterwards with
  every field but the id as before, under the serial ids that follow the id of
  the replacement, in nonce order; the records of other accounts and those with a
  lower nonce are untouched; the future table is untouched. As a multiset of
  values (ids aside) the ready table differs in the replaced record only.
\<close>

theorem replacement_cascade_reinserts_followups:
  assumes "wf_table (readyTxTable s)"
    and "txFailures ws txData = []"
    and "tbl_find (readyTxTable s) (pubKey txData) (nonce txData) = Some existingTx"
    and "tokenRewardAmount existingTx < tokenRewardAmount txData"
    and "0 < txQueryLimit cfg"
  shows "\<exists>s'. add ws cfg txData s = Some (s', Inr [])
     \<and> futureTxTable s' = futureTxTable s
     \<and> map (\<lambda>r. r\<lparr>txId := None\<rparr>)
         (filter (\<lambda>r. pubKey r = pubKey txData \<and> nonce txData < nonce r) (rows (readyTxTable s')))
       = map (\<lambda>r. r\<lparr>txId := None\<rparr>)
         (sort_key nonce
           (filter (\<lambda>r. pubKey r = pubKey txData \<and> nonce txData < nonce r) (rows (readyTxTable s))))
     \<and> map txId
         (filter (\<lambda>r. pubKey r = pubKey txData \<and> nonce txData < nonce r) (rows (readyTxTable s')))
       = map Some [nextTxId (readyTxTable s) + 1 ..<
                   nextTxId (readyTxTable s) + 1
                   + length (filter (\<lambda>r. pubKey r = pubKey txData \<and> nonce txData < nonce r)
                               (rows (readyTxTable s)))]
     \<and> filter (\<lambda>r. \<not> (pubKey r = pubKey txData \<and> nonce txData \<le> nonce r)) (rows (readyTxTable s'))
       = filter (\<lambda>r. \<not> (pubKey r = pubKey txData \<and> nonce txData \<le> nonce r)) (rows (readyTxTable s))
     \<and> filter (\<lambda>r. pubKey r = pubKey txData \<and> nonce r = nonce txData) (rows (readyTxTable s'))
       = [txData\<lparr>txId := Some (nextTxId (readyTxTable s))\<rparr>]
     \<and> mset (map (\<lambda>r. r\<lparr>txId := None\<rparr>)
         (filter (\<lambda>r. \<not> (pubKey r = pubKey txData \<and> nonce r = nonce txData)) (rows (readyTxTable s'))))
       = mset (map (\<lambda>r. r\<lparr>txId := None\<rparr>)
         (filter (\<lambda>r. \<not> (pubKey r = pubKey txData \<and> nonce r = nonce txData)) (rows (readyTxTable s))))"
proof -
  let ?s' = "s\<lparr>readyTxTable := replacedTable txData (readyTxTable s)\<rparr>"
  have ret: "add ws cfg txData s = Some (?s', Inr [])"
    using add_replaces [OF assms(1-4), of cfg] assms(5) by simp
  have ready: "readyTxTable ?s' = replacedTable txData (readyTxTable s)" by simp
  have future: "futureTxTable ?s' = futureTxTable s" by simp
  show ?thesis
    apply (rule exI [of _ ?s'])
    apply (intro conjI)
          apply (rule ret)
         apply (rule future)
        apply (simp only: ready replacedTable_higher strip_renumber)
       apply (simp only: ready replacedTable_higher txId_renumber length_sort)
      apply (simp only: ready replacedTable_others)
     apply (simp only: ready replacedTable_at)
    apply (simp only: ready replacedTable_values)
    done
qed

theorem replacement_cascade_reinserts_followups_witness:
  "wf_table (readyTxTable threeReady)
   \<and> txFailures (okWallet 1) (mkTx ''a'' 1 5 ''n'') = []
   \<and> tbl_find (readyTxTable threeReady) (pubKey (mkTx ''a'' 1 5 ''n'')) (nonce (mkTx ''a'' 1 5 ''n''))
       = Some ((mkTx ''a'' 1 4 ''x'')\<lparr>txId := Some 1\<rparr>)
   \<and> tokenRewardAmount ((mkTx ''a'' 1 4 ''x'')\<lparr>txId := Some 1\<rparr>) < tokenRewardAmount (mkTx ''a'' 1 5 ''n'')
   \<and> 0 < txQueryLimit sampleConfig
   \<and> (\<exists>s'. add (okWallet 1) sampleConfig (mkTx ''a'' 1 5 ''n'') threeReady = Some (s', Inr [])
        \<and> futureTxTable s' = futureTxTable threeReady
        \<and> map (\<lambda>r. r\<lparr>txId := None\<rparr>)
            (filter (\<lambda>r. pubKey r = ''a'' \<and> 1 < nonce r) (rows (readyTxTable s')))
          = [mkTx ''a'' 2 4 ''y'', mkTx ''a'' 3 4 ''z'']
        \<and> map txId (filter (\<lambda>r. pubKey r = ''a'' \<and> 1 < nonce r) (rows (readyTxTable s')))
          = [Some 5, Some 6]
        \<and> filter (\<lambda>r. pubKey r = ''a'' \<and> nonce r = 1) (rows (readyTxTable s'))
          = [(mkTx ''a'' 1 5 ''n'')\<lparr>txId := Some 4\<rparr>])"
proof -
  have ok: "txFailures (okWallet 1) (mkTx ''a'' 1 5 ''n'') = []" by (simp add: okWallet_def)
  have f: "tbl_find (readyTxTable threeReady) (pubKey (mkTx ''a'' 1 5 ''n'')) (nonce (mkTx ''a'' 1 5 ''n''))
       = Some ((mkTx ''a'' 1 4 ''x'')\<lparr>txId := Some 1\<rparr>)"
    by (simp add: tbl_find_def threeReady_def mkTx_def)
  have r: "tokenRewardAmount ((mkTx ''a'' 1 4 ''x'')\<lparr>txId := Some 1\<rparr>) < tokenRewardAmount (mkTx ''a'' 1 5 ''n'')"
    by (simp add: mkTx_def)
  have l: "0 < txQueryLimit sampleConfig" by (simp add: sampleConfig_def)
  have pk: "pubKey (mkTx ''a'' 1 5 ''n'') = ''a''" and k: "nonce (mkTx ''a'' 1 5 ''n'') = 1"
    by (simp_all add: mkTx_def)
  have old: "sort_key nonce (filter (\<lambda>r. pubKey r = ''a'' \<and> 1 < nonce r) (rows (readyTxTable threeReady)))
             = [(mkTx ''a'' 2 4 ''y'')\<lparr>txId := Some 2\<rparr>, (mkTx ''a'' 3 4 ''z'')\<lparr>txId := Some 3\<rparr>]"
    by (simp add: threeReady_def mkTx_def)
  have len: "length (filter (\<lambda>r. pubKey r = ''a'' \<and> 1 < nonce r) (rows (readyTxTable threeReady))) = 2"
    by (simp add: threeReady_def mkTx_def)
  have n4: "nextTxId (readyTxTable threeReady) = 4" by (simp add: threeReady_def)
  have upt: "[5..<7] = [5, 6 :: nat]" by (simp add: upt_rec)
  have strip: "map (\<lambda>r. r\<lparr>txId := None\<rparr>)
      [(mkTx ''a'' 2 4 ''y'')\<lparr>txId := Some 2\<rparr>, (mkTx ''a'' 3 4 ''z'')\<lparr>txId := Some 3\<rparr>]
      = [mkTx ''a'' 2 4 ''y'', mkTx ''a'' 3 4 ''z'']"
    by (simp add: mkTx_def)
  have ids: "map Some [4 + 1..<4 + 1 + 2] = [Some 5, Some (6 :: nat)]"
    by (simp add: upt_rec)
  note E = replacement_cascade_reinserts_followups [OF wf_threeReady ok f r l,
      unfolded pk k old len n4 strip ids]
  have "\<exists>s'. add (okWallet 1) sampleConfig (mkTx ''a'' 1 5 ''n'') threeReady = Some (s', Inr [])
        \<and> futureTxTable s' = futureTxTable threeReady
        \<and> map (\<lambda>r. r\<lparr>txId := None\<rparr>)
            (filter (\<lambda>r. pubKey r = ''a'' \<and> 1 < nonce r) (rows (readyTxTable s')))
          = [mkTx ''a'' 2 4 ''y'', mkTx ''a'' 3 4 ''z'']
        \<and> map txId (filter (\<lambda>r. pubKey r = ''a'' \<and> 1 < nonce r) (rows (readyTxTable s')))
          = [Some 5, Some 6]
        \<and> filter (\<lambda>r. pubKey r = ''a'' \<and> nonce r = 1) (rows (readyTxTable s'))
          = [(mkTx ''a'' 1 5 ''n'')\<lparr>txId := Some 4\<rparr>]"
    using E
    apply (elim exE conjE)
    apply (rule exI)
    apply (intro conjI)
        apply assumption+
    done
  with wf_threeReady ok f r l show ?thesis by (intro conjI)
qed

section \<open>Promotion from the future table\<close>

lemma scanFutureTxs_props:
  "scanFutureTxs l xs = (l', toRemove, toAdd) \<Longrightarrow>
   map nonce toAdd = [l..<l'] \<and> l \<le> l' \<and> set toRemove \<subseteq> set xs
   \<and> set (map pubKey toAdd) \<subseteq> set (map pubKey xs)"
proof (induction xs arbitrary: l l' toRemove toAdd)
  case Nil
  then show ?case by simp
next
  case (Cons x xs)
  show ?case
  proof (cases "nonce x < l")
    case True
    with Cons.prems obtain rm where rm: "scanFutureTxs l xs = (l', rm, toAdd)" "toRemove = x # rm"
      by (auto split: prod.splits)
    from Cons.IH [OF rm(1)] rm(2) show ?thesis by auto
  next
    case False
    show ?thesis
    proof (cases "l = nonce x")
      case True
      with Cons.prems obtain rm ad where rm: "scanFutureTxs (l + 1) xs = (l', rm, ad)"
        "toRemove = x # rm" "toAdd = x\<lparr>txId := None\<rparr> # ad"
        by (auto split: prod.splits)
      from Cons.IH [OF rm(1)] have ih: "map nonce ad = [l + 1..<l']" "l + 1 \<le> l'"
        "set rm \<subseteq> set xs" "set (map pubKey ad) \<subseteq> set (map pubKey xs)" by simp_all
      have "[l..<l'] = l # [l + 1..<l']" using ih(2) by (simp add: upt_conv_Cons)
      with ih rm(2,3) True show ?thesis by auto
    next
      case neq: False
      with False Cons.prems show ?thesis by simp
    qed
  qed
qed

lemma pubKeyTxsInNonceOrder_subset:
  "set (tbl_pubKeyTxsInNonceOrder t pk limit) \<subseteq> set (filter (\<lambda>r. pubKey r = pk) (rows t))"
proof -
  have "set (take limit (sort_key nonce (filter (\<lambda>r. pubKey r = pk) (rows t))))
        \<subseteq> set (sort_key nonce (filter (\<lambda>r. pubKey r = pk) (rows t)))"
    by (rule set_take_subset)
  then show ?thesis by (simp add: tbl_pubKeyTxsInNonceOrder_def)
qed

text \<open>
  What one run of \<^verbatim>\<open>tryMoveFutureTxs\<close> from nonce \<open>l\<close> does to the pools: the ready
  table gains records of the account with the nonces \<open>l\<close>, \<open>l + 1\<close>, \<dots> in this order,
  the future table only loses records, and well-formed tables stay so.
\<close>

definition promoted :: "string \<Rightarrow> nat \<Rightarrow> TxService \<Rightarrow> TxService \<Rightarrow> bool" where
  "promoted pk l s s' \<longleftrightarrow>
     (\<exists>ad l'. rows (readyTxTable s') = rows (readyTxTable s) @ ad
        \<and> set (map pubKey ad) \<subseteq> {pk} \<and> map nonce ad = [l..<l'])
     \<and> (\<exists>R. rows (futureTxTable s') = filter R (rows (futureTxTable s)))
     \<and> nextTxId (futureTxTable s') = nextTxId (futureTxTable s)
     \<and> (wf_table (readyTxTable s) \<longrightarrow> wf_table (readyTxTable s'))"

lemma promoted_refl: "promoted pk l s s"
proof -
  have "rows (readyTxTable s) = rows (readyTxTable s) @ []
        \<and> set (map pubKey ([] :: TransactionData list)) \<subseteq> {pk}
        \<and> map nonce ([] :: TransactionData list) = [l..<l]" by simp
  moreover have "rows (futureTxTable s) = filter (\<lambda>r. True) (rows (futureTxTable s))" by simp
  ultimately show ?thesis unfolding promoted_def by blast
qed

lemma promoted_step:
  assumes add: "tbl_add toAdd (readyTxTable s) = Inr ready"
    and scan: "scanFutureTxs l (tbl_pubKeyTxsInNonceOrder (futureTxTable s) pk limit)
               = (l1, toRemove, toAdd)"
    and rest: "promoted pk l1 (s\<lparr>readyTxTable := ready,
                 futureTxTable := tbl_remove toRemove (futureTxTable s)\<rparr>) s'"
  shows "promoted pk l s s'"
proof -
  let ?s1 = "s\<lparr>readyTxTable := ready, futureTxTable := tbl_remove toRemove (futureTxTable s)\<rparr>"
  let ?page = "tbl_pubKeyTxsInNonceOrder (futureTxTable s) pk limit"
  from scanFutureTxs_props [OF scan]
  have nonces: "map nonce toAdd = [l..<l1]" and le: "l \<le> l1"
    and keys: "set (map pubKey toAdd) \<subseteq> set (map pubKey ?page)" by simp_all
  have "set (map pubKey ?page) \<subseteq> {pk}"
    using pubKeyTxsInNonceOrder_subset [of "futureTxTable s" pk limit] by auto
  with keys have keys1: "set (map pubKey toAdd) \<subseteq> {pk}" by blast
  from tbl_add_Inr [OF add]
  have ready: "rows ready = rows (readyTxTable s) @ renumber (nextTxId (readyTxTable s)) toAdd"
    by simp
  from rest obtain ad l2 R where
    r2: "rows (readyTxTable s') = rows ready @ ad" "set (map pubKey ad) \<subseteq> {pk}"
        "map nonce ad = [l1..<l2]"
    and f2: "rows (futureTxTable s') = filter R (rows (tbl_remove toRemove (futureTxTable s)))"
    and n2: "nextTxId (futureTxTable s') = nextTxId (tbl_remove toRemove (futureTxTable s))"
    and w2: "wf_table ready \<longrightarrow> wf_table (readyTxTable s')"
    unfolding promoted_def by auto
  let ?ad = "renumber (nextTxId (readyTxTable s)) toAdd @ ad"
  have a: "rows (readyTxTable s') = rows (readyTxTable s) @ ?ad"
    using r2(1) ready by simp
  have b: "set (map pubKey ?ad) \<subseteq> {pk}"
    using r2(2) keys1 by (simp add: pubKey_renumber)
  have c: "map nonce ?ad = [l..<max l1 l2]"
  proof (cases "l1 \<le> l2")
    case True
    then obtain d where d: "l2 = l1 + d" by (auto simp: le_iff_add)
    have "[l..<l1] @ [l1..<l2] = [l..<max l1 l2]"
      unfolding d using upt_add_eq_append [OF le, of d] by (simp add: max_def)
    then show ?thesis using r2(3) nonces by (simp add: nonce_renumber)
  next
    case False
    then show ?thesis using r2(3) nonces by (simp add: nonce_renumber max_def)
  qed
  have d: "rows (futureTxTable s')
           = filter (\<lambda>r. txId r \<notin> set (map txId toRemove) \<and> R r) (rows (futureTxTable s))"
    using f2 by (simp add: tbl_remove_def conj_commute)
  have e: "nextTxId (futureTxTable s') = nextTxId (futureTxTable s)"
    using n2 by (simp add: tbl_remove_def)
  have f: "wf_table (readyTxTable s) \<longrightarrow> wf_table (readyTxTable s')"
    using w2 wf_tbl_add [OF add] by blast
  from a b c d e f show ?thesis unfolding promoted_def by blast
qed

lemma tryMoveFutureTxs_promoted:
  assumes "tryMoveFutureTxs cfg0 pk0 l0 s0 = Some res0"
  shows "promoted pk0 l0 s0 (fst res0)"
proof (rule tryMoveFutureTxs.raw_induct
    [where P = "\<lambda>cfg pk l s res. promoted pk l s (fst res)", OF _ assms], goal_cases)
  case (1 tryMove cfg pk l s res)
  let ?page = "tbl_pubKeyTxsInNonceOrder (futureTxTable s) pk (txQueryLimit cfg)"
  obtain l1 toRemove toAdd where scan: "scanFutureTxs l ?page = (l1, toRemove, toAdd)"
    by (cases "scanFutureTxs l ?page") auto
  from 1(2) have body:
    "(case tbl_add toAdd (readyTxTable s) of
        Inl e \<Rightarrow> Some (s, Some e)
      | Inr ready \<Rightarrow>
          if length toRemove = txQueryLimit cfg
          then tryMove cfg pk l1
                 (s\<lparr>readyTxTable := ready,
                    futureTxTable := tbl_remove toRemove (futureTxTable s)\<rparr>)
          else Some (s\<lparr>readyTxTable := ready,
                       futureTxTable := tbl_remove toRemove (futureTxTable s)\<rparr>, None))
     = Some res"
    unfolding Let_def scan fst_conv snd_conv .
  show ?case
  proof (cases "tbl_add toAdd (readyTxTable s)")
    case (Inl e)
    with body have "res = (s, Some e)" by simp
    then show ?thesis by (simp add: promoted_refl)
  next
    case (Inr ready)
    let ?s1 = "s\<lparr>readyTxTable := ready, futureTxTable := tbl_remove toRemove (futureTxTable s)\<rparr>"
    show ?thesis
    proof (cases "length toRemove = txQueryLimit cfg")
      case True
      from body have "tryMove cfg pk l1 ?s1 = Some res"
        unfolding Inr using True by simp
      from 1(1) [OF this] have "promoted pk l1 ?s1 (fst res)" .
      from promoted_step [OF Inr scan this] show ?thesis .
    next
      case False
      from body have "res = (?s1, None)"
        unfolding Inr using False by simp
      then have "promoted pk l1 ?s1 (fst res)" by (simp add: promoted_refl)
      from promoted_step [OF Inr scan this] show ?thesis .
    qed
  qed
qed

lemma tryMoveFutureTxs_returns:
  assumes limit: "0 < txQueryLimit cfg"
  shows "\<exists>res. tryMoveFutureTxs cfg pk l s = Some res"
proof (induction "length (filter (\<lambda>r. pubKey r = pk) (rows (futureTxTable s)))"
    arbitrary: s l rule: less_induct)
  case less
  let ?page = "tbl_pubKeyTxsInNonceOrder (futureTxTable s) pk (txQueryLimit cfg)"
  obtain l1 toRemove toAdd where scan: "scanFutureTxs l ?page = (l1, toRemove, toAdd)"
    by (cases "scanFutureTxs l ?page") auto
  show ?case
  proof (cases "tbl_add toAdd (readyTxTable s)")
    case (Inl e)
    with scan show ?thesis by (subst tryMoveFutureTxs.simps) (simp add: Let_def)
  next
    case (Inr ready)
    let ?s1 = "s\<lparr>readyTxTable := ready, futureTxTable := tbl_remove toRemove (futureTxTable s)\<rparr>"
    show ?thesis
    proof (cases "length toRemove = txQueryLimit cfg")
      case True
      with limit obtain x rm where rm: "toRemove = x # rm" by (cases toRemove) auto
      from scanFutureTxs_props [OF scan] rm have "x \<in> set ?page" by auto
      with pubKeyTxsInNonceOrder_subset [of "futureTxTable s" pk "txQueryLimit cfg"]
      have xin: "x \<in> set (filter (\<lambda>r. pubKey r = pk) (rows (futureTxTable s)))" by blast
      have "filter (\<lambda>r. pubKey r = pk) (rows (futureTxTable ?s1))
            = filter (\<lambda>r. txId r \<notin> set (map txId toRemove))
                (filter (\<lambda>r. pubKey r = pk) (rows (futureTxTable s)))"
        by (simp add: tbl_remove_def conj_commute)
      moreover have "length (filter (\<lambda>r. txId r \<notin> set (map txId toRemove))
                (filter (\<lambda>r. pubKey r = pk) (rows (futureTxTable s))))
            < length (filter (\<lambda>r. pubKey r = pk) (rows (futureTxTable s)))"
        using xin rm by (intro length_filter_less [of x]) auto
      ultimately have "length (filter (\<lambda>r. pubKey r = pk) (rows (futureTxTable ?s1)))
            < length (filter (\<lambda>r. pubKey r = pk) (rows (futureTxTable s)))" by simp
      from less [OF this] obtain res where "tryMoveFutureTxs cfg pk l1 ?s1 = Some res" by blast
      with scan Inr True show ?thesis by (subst tryMoveFutureTxs.simps) (simp add: Let_def)
    next
      case False
      with scan Inr show ?thesis by (subst tryMoveFutureTxs.simps) (simp add: Let_def)
    qed
  qed
qed

section \<open>Invariants of the two pools\<close>

text \<open>The nonces an account has in a table, in the order of the rows.\<close>

definition accountNonces :: "TxTable \<Rightarrow> string \<Rightarrow> nat list" where
  "accountNonces t a = map nonce (filter (\<lambda>r. pubKey r = a) (rows t))"

lemma accountNonces_of_keys:
  "accountNonces t a
   = map snd (filter (\<lambda>p. fst p = a) (map (\<lambda>r. (pubKey r, nonce r)) (rows t)))"
  unfolding accountNonces_def by (induction "rows t" arbitrary: t) (simp_all add: filter_map comp_def)

lemma accountNonces_same_keys:
  assumes "mset (map (\<lambda>r. (pubKey r, nonce r)) (rows t'))
           = mset (map (\<lambda>r. (pubKey r, nonce r)) (rows t))"
  shows "mset (accountNonces t' a) = mset (accountNonces t a)"
proof -
  have "mset (map snd (filter (\<lambda>p. fst p = a) zs))
        = image_mset snd (filter_mset (\<lambda>p. fst p = a) (mset zs))" for zs :: "(string \<times> nat) list"
    by simp
  then show ?thesis unfolding accountNonces_of_keys using assms by simp
qed

lemma only_row_with_key:
  assumes "distinct (map f xs)" and "x \<in> set xs"
  shows "filter (\<lambda>y. f y = f x) xs = [x]"
  using assms
proof (induction xs)
  case Nil
  then show ?case by simp
next
  case (Cons y ys)
  show ?case
  proof (cases "y = x")
    case True
    from True Cons.prems(1) have notin: "f x \<notin> f ` set ys" by simp
    have "\<And>z. z \<in> set ys \<Longrightarrow> f z \<noteq> f x"
    proof -
      fix z assume "z \<in> set ys"
      then have "f z \<in> f ` set ys" by (rule imageI)
      with notin show "f z \<noteq> f x" by auto
    qed
    then have "filter (\<lambda>z. f z = f x) ys = []" by (simp add: filter_empty_conv)
    with True show ?thesis by simp
  next
    case False
    with Cons.prems have xin: "x \<in> set ys" and "f y \<noteq> f x" by auto
    with Cons.IH [OF _ xin] Cons.prems(1) show ?thesis by simp
  qed
qed

lemma mset_map_partition:
  "mset (map f xs) = mset (map f (filter P xs)) + mset (map f (filter (\<lambda>x. \<not> P x) xs))"
  by (induction xs) auto

lemma keys_replacedOnly:
  assumes wf: "wf_table t" and ex: "tbl_find t (pubKey txData) (nonce txData) = Some ex"
  shows "mset (map (\<lambda>r. (pubKey r, nonce r)) (rows (replacedOnly txData t)))
         = mset (map (\<lambda>r. (pubKey r, nonce r)) (rows t))"
proof -
  let ?key = "\<lambda>r. (pubKey r, nonce r)"
  let ?A = "\<lambda>r. pubKey r = pubKey txData \<and> nonce r = nonce txData"
  from tbl_find_Some [OF ex] have exin: "ex \<in> set (rows t)" and exk: "?key ex = ?key txData"
    by simp_all
  have "filter (\<lambda>r. ?key r = ?key ex) (rows t) = [ex]"
    by (rule only_row_with_key [OF wf_keys_distinct [OF wf] exin])
  then have one: "filter ?A (rows t) = [ex]" using exk by simp
  have "mset (map ?key (rows t))
        = mset (map ?key (filter ?A (rows t))) + mset (map ?key (filter (\<lambda>r. \<not> ?A r) (rows t)))"
    by (rule mset_map_partition)
  also have "\<dots> = {#?key txData#} + mset (map ?key (filter (\<lambda>r. \<not> ?A r) (rows t)))"
    unfolding one using exk by simp
  finally show ?thesis by (simp add: replacedOnly_def)
qed

lemma wf_replacedTable:
  assumes wf: "wf_table t" and ex: "tbl_find t (pubKey txData) (nonce txData) = Some ex"
  shows "wf_table (replacedTable txData t)"
proof -
  let ?t2 = "replacedOnly txData t"
  let ?S = "sort_key nonce (filter (\<lambda>r. pubKey r = pubKey txData \<and> nonce txData < nonce r) (rows ?t2))"
  have wf2: "wf_table ?t2" by (rule replace_first_step(2) [OF wf ex])
  have sub: "set ?S \<subseteq> set (rows ?t2)" by auto
  have d: "distinct ?S" using rows_distinct [OF wf2] by simp
  from fold_reinsert [OF wf2 sub d] have "wf_table (reinsertAll ?S ?t2)" by simp
  then show ?thesis by (simp only: replacedTable_eq [OF wf ex])
qed

lemma keys_replacedTable:
  assumes wf: "wf_table t" and ex: "tbl_find t (pubKey txData) (nonce txData) = Some ex"
  shows "mset (map (\<lambda>r. (pubKey r, nonce r)) (rows (replacedTable txData t)))
         = mset (map (\<lambda>r. (pubKey r, nonce r)) (rows t))"
proof -
  let ?key = "\<lambda>r. (pubKey r, nonce r)"
  let ?A = "\<lambda>r. pubKey r = pubKey txData \<and> nonce r = nonce txData"
  let ?strip = "\<lambda>r. r\<lparr>txId := None\<rparr>"
  let ?t' = "replacedTable txData t"
  have keystrip: "map ?key xs = map ?key (map ?strip xs)" for xs by simp
  have rest: "mset (map ?key (filter (\<lambda>r. \<not> ?A r) (rows ?t')))
        = mset (map ?key (filter (\<lambda>r. \<not> ?A r) (rows t)))"
  proof -
    have "mset (map ?key (map ?strip (filter (\<lambda>r. \<not> ?A r) (rows ?t'))))
          = image_mset ?key (mset (map ?strip (filter (\<lambda>r. \<not> ?A r) (rows ?t'))))"
      by (rule mset_map)
    also have "\<dots> = image_mset ?key (mset (map ?strip (filter (\<lambda>r. \<not> ?A r) (rows t))))"
      by (simp only: replacedTable_values)
    also have "\<dots> = mset (map ?key (map ?strip (filter (\<lambda>r. \<not> ?A r) (rows t))))"
      by (rule mset_map [symmetric])
    finally show ?thesis by (simp only: keystrip [symmetric])
  qed
  have "mset (map ?key (rows ?t'))
        = mset (map ?key (filter ?A (rows ?t'))) + mset (map ?key (filter (\<lambda>r. \<not> ?A r) (rows ?t')))"
    by (rule mset_map_partition)
  also have "\<dots> = {#?key txData#} + mset (map ?key (filter (\<lambda>r. \<not> ?A r) (rows t)))"
    unfolding rest replacedTable_at by simp
  also have "\<dots> = mset (map ?key (rows (replacedOnly txData t)))"
    by (simp add: replacedOnly_def)
  finally show ?thesis by (simp only: keys_replacedOnly [OF wf ex])
qed

lemma wf_table_rows:
  assumes "wf_table t" and "rows t' = filter R (rows t)" and "nextTxId t' = nextTxId t"
  shows "wf_table t'"
  using assms unfolding wf_table_def
  by (auto simp: sorted_wrt_map sorted_wrt_filter distinct_map_filter split: option.splits)

lemma lowest_at_end:
  assumes run: "mset (accountNonces (readyTxTable s) pk) = mset [c..<c + k]"
    and l: "LowestAcceptableNonce s c pk = Inr l"
  shows "l = c + k"
proof (cases "tbl_nextNonceOf (readyTxTable s) pk")
  case None
  then have "accountNonces (readyTxTable s) pk = []"
    by (simp add: tbl_nextNonceOf_None accountNonces_def)
  with arg_cong [OF run, of size] have "k = 0" by simp
  moreover from l None have "l = c"
    by (simp add: LowestAcceptableNonce_None split: if_splits)
  ultimately show ?thesis by simp
next
  case (Some n)
  let ?xs = "filter (\<lambda>r. pubKey r = pk) (rows (readyTxTable s))"
  from Some obtain y ys where ys: "?xs = y # ys"
    by (auto simp: tbl_nextNonceOf_def split: list.splits)
  with Some have n: "n = Max (set (map nonce ?xs)) + 1" by (simp add: tbl_nextNonceOf_def)
  have "set (map nonce ?xs) = set_mset (mset (accountNonces (readyTxTable s) pk))"
    by (simp add: accountNonces_def)
  also have "\<dots> = {c..<c + k}" unfolding run by simp
  finally have set: "set (map nonce ?xs) = {c..<c + k}" .
  from ys have "set (map nonce ?xs) \<noteq> {}" by simp
  with set have k: "0 < k" by auto
  then have "Max {c..<c + k} = c + k - 1"
    by (intro Max_eqI) auto
  with n set k have "n = c + k" by simp
  with l Some show ?thesis by (simp add: LowestAcceptableNonce_Some max_def split: if_splits)
qed

text \<open>
  What holds of the pools after every call of \<^verbatim>\<open>add\<close>, from empty pools on, while the
  ledger stays as it is: both tables are well formed, each account's nonces in the
  ready table are a run starting at the chain's next nonce of the account, and a
  positive \<^verbatim>\<open>maxFutureTxs\<close> bounds the future table.
\<close>

definition poolsInvariant :: "WalletService \<Rightarrow> Config \<Rightarrow> TxService \<Rightarrow> bool" where
  "poolsInvariant ws cfg s \<longleftrightarrow>
     wf_table (readyTxTable s) \<and> wf_table (futureTxTable s)
     \<and> (\<forall>a. \<exists>k. mset (accountNonces (readyTxTable s) a)
                  = mset [chainNextNonce ws a..<chainNextNonce ws a + k])
     \<and> (0 < maxFutureTxs cfg \<longrightarrow> tbl_count (futureTxTable s) \<le> maxFutureTxs cfg)"

lemma poolsInvariant_empty: "poolsInvariant ws cfg emptyService"
proof -
  have "mset (accountNonces emptyTable a) = mset [chainNextNonce ws a..<chainNextNonce ws a + 0]" for a
    by (simp add: accountNonces_def emptyTable_def)
  then have "\<forall>a. \<exists>k. mset (accountNonces emptyTable a)
                  = mset [chainNextNonce ws a..<chainNextNonce ws a + k]" by blast
  then show ?thesis
    by (simp add: poolsInvariant_def emptyService_def wf_emptyTable)
       (simp add: tbl_count_def emptyTable_def)
qed

lemma inv_replace:
  assumes inv: "poolsInvariant ws cfg s"
    and bound: "\<And>r. r \<in> set (rows (readyTxTable s)) \<Longrightarrow> pubKey r = pubKey txData \<Longrightarrow> nonce r < l"
  shows "poolsInvariant ws cfg (fst (replaceReadyTx cfg l txData s))"
proof (cases "tbl_find (readyTxTable s) (pubKey txData) (nonce txData)")
  case None
  with inv show ?thesis by (simp add: replaceReadyTx_def)
next
  case (Some ex)
  from inv have wf: "wf_table (readyTxTable s)" by (simp add: poolsInvariant_def)
  show ?thesis
  proof (cases "tokenRewardAmount ex < tokenRewardAmount txData")
    case False
    with Some inv show ?thesis by (simp add: replaceReadyTx_def isRewardBetter_def)
  next
    case True
    let ?t' = "if txQueryLimit cfg = 0 then replacedOnly txData (readyTxTable s)
               else replacedTable txData (readyTxTable s)"
    have res: "fst (replaceReadyTx cfg l txData s) = s\<lparr>readyTxTable := ?t'\<rparr>"
      by (simp only: replaceReadyTx_replaces [OF wf Some True bound] fst_conv)
    have wf': "wf_table ?t'"
      using replace_first_step(2) [OF wf Some] wf_replacedTable [OF wf Some] by simp
    have "mset (map (\<lambda>r. (pubKey r, nonce r)) (rows ?t'))
          = mset (map (\<lambda>r. (pubKey r, nonce r)) (rows (readyTxTable s)))"
      using keys_replacedOnly [OF wf Some] keys_replacedTable [OF wf Some] by simp
    then have same: "mset (accountNonces ?t' a) = mset (accountNonces (readyTxTable s) a)" for a
      by (rule accountNonces_same_keys)
    show ?thesis
      unfolding res using inv wf' by (simp add: poolsInvariant_def same)
  qed
qed

lemma tbl_First_oldest:
  assumes wf: "wf_table t" and rows: "rows t = r # rs"
  shows "tbl_First t = Some r"
proof -
  from wf have "sorted (map txId (rows t))" by (simp add: wf_table_def strict_sorted_iff)
  then have "sort_key txId (rows t) = rows t" by (rule sort_key_id_if_sorted)
  with rows show ?thesis by (simp add: tbl_First_def)
qed

lemma ensure_ready [simp]: "readyTxTable (ensureFutureTxSpace cfg s) = readyTxTable s"
  by (simp add: ensureFutureTxSpace_def Let_def split: option.splits)

lemma ensure_wf:
  "wf_table (futureTxTable s) \<Longrightarrow> wf_table (futureTxTable (ensureFutureTxSpace cfg s))"
  by (simp add: ensureFutureTxSpace_def Let_def wf_tbl_clearBeforeId split: option.splits)

lemma ensure_full:
  assumes wf: "wf_table (futureTxTable s)"
    and rows: "rows (futureTxTable s) = r # rs"
    and full: "maxFutureTxs cfg \<le> tbl_count (futureTxTable s)"
  shows "\<exists>i. txId r = Some i \<and> tbl_First (futureTxTable s) = Some r
           \<and> ensureFutureTxSpace cfg s
             = s\<lparr>futureTxTable :=
                   tbl_clearBeforeId (i + (tbl_count (futureTxTable s) - maxFutureTxs cfg + 1))
                     (futureTxTable s)\<rparr>"
proof -
  from wf_id_less [OF wf, of r] rows obtain i where i: "txId r = Some i" by auto
  from tbl_First_oldest [OF wf rows] have first: "tbl_First (futureTxTable s) = Some r" .
  from i first full show ?thesis by (simp add: ensureFutureTxSpace_def Let_def)
qed

lemma ensure_room:
  assumes wf: "wf_table (futureTxTable s)" and cap: "0 < maxFutureTxs cfg"
    and le: "tbl_count (futureTxTable s) \<le> maxFutureTxs cfg"
  shows "tbl_count (futureTxTable (ensureFutureTxSpace cfg s)) < maxFutureTxs cfg"
proof (cases "tbl_count (futureTxTable s) < maxFutureTxs cfg")
  case True
  then show ?thesis by (simp add: ensureFutureTxSpace_def Let_def)
next
  case False
  with le have eq: "tbl_count (futureTxTable s) = maxFutureTxs cfg" by simp
  with cap obtain r rs where rows: "rows (futureTxTable s) = r # rs"
    by (cases "rows (futureTxTable s)") (auto simp: tbl_count_def)
  from eq have "maxFutureTxs cfg \<le> tbl_count (futureTxTable s)" by simp
  from ensure_full [OF wf rows this] eq obtain i where i: "txId r = Some i"
    and ens: "ensureFutureTxSpace cfg s
              = s\<lparr>futureTxTable := tbl_clearBeforeId (i + 1) (futureTxTable s)\<rparr>"
    by auto
  have "length (filter (\<lambda>x. \<not> txId x < Some (i + 1)) (r # rs)) \<le> length rs"
    using i by simp
  with rows eq show ?thesis
    unfolding ens by (simp add: tbl_clearBeforeId_def tbl_count_def)
qed

lemma inv_future_add:
  assumes inv: "poolsInvariant ws cfg s"
  shows "poolsInvariant ws cfg (ensureFutureTxSpace cfg s)"
    and "tbl_add [txData] (futureTxTable (ensureFutureTxSpace cfg s)) = Inr future \<Longrightarrow>
         poolsInvariant ws cfg ((ensureFutureTxSpace cfg s)\<lparr>futureTxTable := future\<rparr>)"
proof -
  let ?s1 = "ensureFutureTxSpace cfg s"
  from inv have wfr: "wf_table (readyTxTable s)" and wff: "wf_table (futureTxTable s)"
    and run: "\<forall>a. \<exists>k. mset (accountNonces (readyTxTable s) a)
                  = mset [chainNextNonce ws a..<chainNextNonce ws a + k]"
    and cnt: "0 < maxFutureTxs cfg \<longrightarrow> tbl_count (futureTxTable s) \<le> maxFutureTxs cfg"
    by (simp_all add: poolsInvariant_def)
  have room: "0 < maxFutureTxs cfg \<longrightarrow> tbl_count (futureTxTable ?s1) < maxFutureTxs cfg"
    using ensure_room [OF wff] cnt by blast
  from room have room': "0 < maxFutureTxs cfg \<longrightarrow> tbl_count (futureTxTable ?s1) \<le> maxFutureTxs cfg"
    by auto
  show "poolsInvariant ws cfg ?s1"
    using wfr ensure_wf [OF wff, of cfg] run room' by (simp add: poolsInvariant_def)
  assume add: "tbl_add [txData] (futureTxTable ?s1) = Inr future"
  from wf_tbl_add [OF add ensure_wf [OF wff]] have wf': "wf_table future" .
  from tbl_add_Inr [OF add] have "tbl_count future = tbl_count (futureTxTable ?s1) + 1"
    by (simp add: tbl_count_def)
  with room have "0 < maxFutureTxs cfg \<longrightarrow> tbl_count future \<le> maxFutureTxs cfg"
    by (auto simp: Suc_leI)
  with wfr wf' run show "poolsInvariant ws cfg (?s1\<lparr>futureTxTable := future\<rparr>)"
    by (simp add: poolsInvariant_def)
qed

lemma run_extended:
  assumes old: "mset ns = mset [c..<c + k]" and new: "ms = [c + k + 1..<l']"
  shows "\<exists>k'. mset (ns @ [c + k] @ ms) = mset [c..<c + k']"
proof (cases "c + k + 1 \<le> l'")
  case True
  then obtain d where d: "l' = c + k + 1 + d" by (auto simp: le_iff_add)
  have "[c..<c + (k + 1 + d)] = [c..<c + k] @ [c + k..<c + k + (1 + d)]"
    using upt_add_eq_append [of c "c + k" "1 + d"] by (simp add: add.assoc)
  also have "[c + k..<c + k + (1 + d)] = (c + k) # [c + k + 1..<l']"
    unfolding d by (simp add: upt_conv_Cons)
  finally have "[c..<c + (k + 1 + d)] = [c..<c + k] @ [c + k] @ ms"
    using new by simp
  then have "mset (ns @ [c + k] @ ms) = mset [c..<c + (k + 1 + d)]"
    using old by (simp only: mset_append)
  then show ?thesis by blast
next
  case False
  then have "ms = []" using new by simp
  moreover have "[c..<c + (k + 1)] = [c..<c + k] @ [c + k]" by simp
  ultimately have "mset (ns @ [c + k] @ ms) = mset [c..<c + (k + 1)]"
    using old by (simp only: mset_append append_Nil2)
  then show ?thesis by blast
qed

lemma inv_ready_add:
  assumes inv: "poolsInvariant ws cfg s"
    and l: "LowestAcceptableNonce s (chainNextNonce ws (pubKey txData)) (pubKey txData) = Inr l"
    and eq: "l = nonce txData"
    and add: "tbl_add [txData] (readyTxTable s) = Inr ready"
    and prom: "promoted (pubKey txData) (l + 1) (s\<lparr>readyTxTable := ready\<rparr>) s'"
  shows "poolsInvariant ws cfg s'"
proof -
  let ?pk = "pubKey txData"
  let ?c = "chainNextNonce ws"
  from inv have wfr: "wf_table (readyTxTable s)" and wff: "wf_table (futureTxTable s)"
    and run: "\<And>a. \<exists>k. mset (accountNonces (readyTxTable s) a) = mset [?c a..<?c a + k]"
    and cnt: "0 < maxFutureTxs cfg \<longrightarrow> tbl_count (futureTxTable s) \<le> maxFutureTxs cfg"
    by (simp_all add: poolsInvariant_def)
  from tbl_add_Inr [OF add]
  have ready: "rows ready = rows (readyTxTable s) @ [txData\<lparr>txId := Some (nextTxId (readyTxTable s))\<rparr>]"
    by simp
  from prom obtain ad l' R where
    r': "rows (readyTxTable s') = rows ready @ ad"
    and keys: "set (map pubKey ad) \<subseteq> {?pk}"
    and nonces: "map nonce ad = [l + 1..<l']"
    and f': "rows (futureTxTable s') = filter R (rows (futureTxTable s))"
    and n': "nextTxId (futureTxTable s') = nextTxId (futureTxTable s)"
    and w': "wf_table ready \<longrightarrow> wf_table (readyTxTable s')"
    unfolding promoted_def by auto
  have wf1: "wf_table (readyTxTable s')" using w' wf_tbl_add [OF add wfr] by blast
  have wf2: "wf_table (futureTxTable s')" by (rule wf_table_rows [OF wff f' n'])
  have "tbl_count (futureTxTable s') \<le> tbl_count (futureTxTable s)"
    unfolding tbl_count_def f' by simp
  with cnt have cnt': "0 < maxFutureTxs cfg \<longrightarrow> tbl_count (futureTxTable s') \<le> maxFutureTxs cfg"
    by auto
  have run': "\<exists>k. mset (accountNonces (readyTxTable s') a) = mset [?c a..<?c a + k]" for a
  proof (cases "a = ?pk")
    case False
    have "filter (\<lambda>r. pubKey r = a) ad = []"
      using keys False by (auto simp: filter_empty_conv)
    with False have "accountNonces (readyTxTable s') a = accountNonces (readyTxTable s) a"
      by (simp add: accountNonces_def r' ready)
    with run [of a] show ?thesis by simp
  next
    case True
    from run [of ?pk] obtain k where
      k: "mset (accountNonces (readyTxTable s) ?pk) = mset [?c ?pk..<?c ?pk + k]" by blast
    from lowest_at_end [OF k l] have lk: "l = ?c ?pk + k" .
    have "filter (\<lambda>r. pubKey r = ?pk) ad = ad"
      using keys by (intro filter_True) auto
    then have "accountNonces (readyTxTable s') ?pk
               = accountNonces (readyTxTable s) ?pk @ [l] @ map nonce ad"
      using eq by (simp add: accountNonces_def r' ready)
    also have "\<dots> = accountNonces (readyTxTable s) ?pk @ [?c ?pk + k] @ map nonce ad"
      using lk by simp
    finally have "\<exists>k'. mset (accountNonces (readyTxTable s') ?pk) = mset [?c ?pk..<?c ?pk + k']"
      using run_extended [OF k, of "map nonce ad" l'] nonces lk by simp
    with True show ?thesis by simp
  qed
  from wf1 wf2 run' cnt' show ?thesis unfolding poolsInvariant_def by blast
qed

lemma add_preserves:
  assumes inv: "poolsInvariant ws cfg s" and ret: "add ws cfg txData s = Some (s', res)"
  shows "poolsInvariant ws cfg s'"
proof (cases "txFailures ws txData = []")
  case False
  with ret have "s' = s" by (simp add: add_def checkTx_def)
  with inv show ?thesis by simp
next
  case ok: True
  let ?pk = "pubKey txData"
  show ?thesis
  proof (cases "LowestAcceptableNonce s (chainNextNonce ws ?pk) ?pk")
    case (Inl e)
    with ret ok have "s' = s" by (simp add: add_def checkTx_def)
    with inv show ?thesis by simp
  next
    case (Inr l)
    consider (replace) "nonce txData < l" | (ready) "l = nonce txData" | (future) "l < nonce txData"
      by fastforce
    then show ?thesis
    proof cases
      case replace
      with ret ok Inr have "s' = fst (replaceReadyTx cfg l txData s)"
        by (simp add: add_def checkTx_def)
      with inv_replace [OF inv LowestAcceptableNonce_bound [OF Inr]]
      show ?thesis by simp
    next
      case ready
      show ?thesis
      proof (cases "tbl_add [txData] (readyTxTable s)")
        case (Inl e)
        with ret ok Inr ready have "s' = s" by (simp add: add_def checkTx_def)
        with inv show ?thesis by simp
      next
        case added: (Inr r1)
        from ret ok Inr ready added
        obtain e where "tryMoveFutureTxs cfg ?pk (l + 1) (s\<lparr>readyTxTable := r1\<rparr>) = Some (s', e)"
          by (auto simp: add_def checkTx_def split: option.splits prod.splits)
        from tryMoveFutureTxs_promoted [OF this]
        have "promoted ?pk (l + 1) (s\<lparr>readyTxTable := r1\<rparr>) s'" by simp
        from inv_ready_add [OF inv Inr ready added this] show ?thesis .
      qed
    next
      case future
      show ?thesis
      proof (cases "tbl_add [txData] (futureTxTable (ensureFutureTxSpace cfg s))")
        case (Inl e)
        with ret ok Inr future have "s' = ensureFutureTxSpace cfg s"
          by (simp add: add_def checkTx_def Let_def)
        with inv_future_add(1) [OF inv] show ?thesis by simp
      next
        case added: (Inr f)
        with ret ok Inr future have "s' = (ensureFutureTxSpace cfg s)\<lparr>futureTxTable := f\<rparr>"
          by (simp add: add_def checkTx_def Let_def)
        with inv_future_add(2) [OF inv added] show ?thesis by simp
      qed
    qed
  qed
qed

lemma submitAll_preserves:
  "poolsInvariant ws cfg s \<Longrightarrow> submitAll ws cfg txs s = Some s' \<Longrightarrow> poolsInvariant ws cfg s'"
proof (induction txs arbitrary: s)
  case Nil
  then show ?case by simp
next
  case (Cons tx txs)
  from Cons.prems(2) obtain s1 res where
    step: "add ws cfg tx s = Some (s1, res)" and rest: "submitAll ws cfg txs s1 = Some s'"
    by (auto split: option.splits)
  from Cons.IH [OF add_preserves [OF Cons.prems(1) step] rest] show ?case .
qed

lemma add_returns:
  assumes "0 < txQueryLimit cfg"
  shows "\<exists>r. add ws cfg txData s = Some r"
proof -
  have "\<exists>r. tryMoveFutureTxs cfg pk l s1 = Some r" for pk l s1
    by (rule tryMoveFutureTxs_returns [OF assms])
  then have nn: "(tryMoveFutureTxs cfg pk l s1 = None) = False" for pk l s1 by simp
  show ?thesis
    by (auto simp: nn add_def checkTx_def Let_def split: sum.splits option.splits prod.splits)
qed

lemma submitAll_returns:
  assumes "0 < txQueryLimit cfg"
  shows "\<exists>s'. submitAll ws cfg txs s = Some s'"
proof (induction txs arbitrary: s)
  case Nil
  then show ?case by simp
next
  case (Cons tx txs)
  from add_returns [OF assms, of ws tx s] obtain s1 res where "add ws cfg tx s = Some (s1, res)"
    by (cases "add ws cfg tx s") auto
  with Cons [of s1] show ?case by simp
qed

section \<open>Ready contiguity\<close>

text \<open>
  The nonces of an account in the ready table, in ascending order, as
  \<^verbatim>\<open>pubKeyTxsInNonceOrder\<close> lists the account's records when the limit is the size
  of the table.
\<close>

definition readyNonces :: "TxService \<Rightarrow> string \<Rightarrow> nat list" where
  "readyNonces s a =
     map nonce (tbl_pubKeyTxsInNonceOrder (readyTxTable s) a (tbl_count (readyTxTable s)))"

lemma readyNonces_sorted:
  "readyNonces s a = sort (accountNonces (readyTxTable s) a)"
proof -
  let ?xs = "filter (\<lambda>r. pubKey r = a) (rows (readyTxTable s))"
  have "length (sort_key nonce ?xs) \<le> length (rows (readyTxTable s))" by simp
  then have all: "take (length (rows (readyTxTable s))) (sort_key nonce ?xs) = sort_key nonce ?xs"
    by (rule take_all)
  have "sort (map nonce ?xs) = map nonce (sort_key nonce ?xs)"
    by (rule properties_for_sort) simp_all
  with all show ?thesis
    by (simp add: readyNonces_def tbl_pubKeyTxsInNonceOrder_def tbl_count_def accountNonces_def)
qed

lemma readyNonces_run:
  assumes "mset (accountNonces (readyTxTable s) a) = mset [c..<c + k]"
  shows "readyNonces s a = [c..<c + k]"
proof -
  have "sort (accountNonces (readyTxTable s) a) = [c..<c + k]"
    by (rule properties_for_sort) (simp_all add: assms)
  then show ?thesis by (simp only: readyNonces_sorted)
qed

text \<open>
  Claim C1. After any sequence of \<^verbatim>\<open>add\<close> calls from empty pools, on a ledger that
  stays as it is, the nonces an account has in the ready table are, in ascending
  order, the chain's next nonce of the account and the nonces following it: no
  gap, no duplicate, none below. The run ends just below what
  \<^verbatim>\<open>LowestAcceptableNonce\<close> then computes. With a positive \<^verbatim>\<open>txQueryLimit\<close> every
  call of the sequence ends.
\<close>

theorem ready_contiguity:
  "(0 < txQueryLimit cfg \<longrightarrow> (\<exists>s. submitAll ws cfg txs emptyService = Some s))
   \<and> (submitAll ws cfg txs emptyService = Some s \<longrightarrow>
        readyNonces s a
          = [chainNextNonce ws a..<chainNextNonce ws a + length (readyNonces s a)]
        \<and> (readyNonces s a \<noteq> [] \<longrightarrow>
             LowestAcceptableNonce s (chainNextNonce ws a) a
               = Inr (chainNextNonce ws a + length (readyNonces s a))))"
proof (intro conjI impI)
  assume "0 < txQueryLimit cfg"
  then show "\<exists>s. submitAll ws cfg txs emptyService = Some s" by (rule submitAll_returns)
next
  assume reach: "submitAll ws cfg txs emptyService = Some s"
  from submitAll_preserves [OF poolsInvariant_empty reach]
  obtain k where k: "mset (accountNonces (readyTxTable s) a)
                     = mset [chainNextNonce ws a..<chainNextNonce ws a + k]"
    unfolding poolsInvariant_def by blast
  from readyNonces_run [OF k]
  have run: "readyNonces s a = [chainNextNonce ws a..<chainNextNonce ws a + k]" .
  then have len: "length (readyNonces s a) = k" by simp
  from run len show "readyNonces s a
          = [chainNextNonce ws a..<chainNextNonce ws a + length (readyNonces s a)]" by simp
  assume ne: "readyNonces s a \<noteq> []"
  have "tbl_nextNonceOf (readyTxTable s) a \<noteq> None"
  proof
    assume "tbl_nextNonceOf (readyTxTable s) a = None"
    then have "accountNonces (readyTxTable s) a = []"
      by (simp add: tbl_nextNonceOf_None accountNonces_def)
    with ne show False by (simp add: readyNonces_sorted)
  qed
  then obtain n where "tbl_nextNonceOf (readyTxTable s) a = Some n" by auto
  then have l: "LowestAcceptableNonce s (chainNextNonce ws a) a = Inr (max (chainNextNonce ws a) n)"
    by (rule LowestAcceptableNonce_Some)
  from lowest_at_end [OF k l] l len
  show "LowestAcceptableNonce s (chainNextNonce ws a) a
               = Inr (chainNextNonce ws a + length (readyNonces s a))" by simp
qed

theorem ready_contiguity_witness:
  "0 < txQueryLimit sampleConfig
   \<and> (\<exists>s. submitAll (okWallet 1) sampleConfig
             [mkTx ''a'' 3 4 ''z'', mkTx ''a'' 1 4 ''x'', mkTx ''a'' 2 4 ''y''] emptyService = Some s)
   \<and> submitAll (okWallet 1) sampleConfig
        [mkTx ''a'' 3 4 ''z'', mkTx ''a'' 1 4 ''x'', mkTx ''a'' 2 4 ''y''] emptyService
      = Some \<lparr>readyTxTable =
                \<lparr>rows = [(mkTx ''a'' 1 4 ''x'')\<lparr>txId := Some 1\<rparr>,
                         (mkTx ''a'' 2 4 ''y'')\<lparr>txId := Some 2\<rparr>,
                         (mkTx ''a'' 3 4 ''z'')\<lparr>txId := Some 3\<rparr>],
                 nextTxId = 4\<rparr>,
              futureTxTable = \<lparr>rows = [], nextTxId = 2\<rparr>\<rparr>
   \<and> readyNonces
        \<lparr>readyTxTable =
           \<lparr>rows = [(mkTx ''a'' 1 4 ''x'')\<lparr>txId := Some 1\<rparr>,
                    (mkTx ''a'' 2 4 ''y'')\<lparr>txId := Some 2\<rparr>,
                    (mkTx ''a'' 3 4 ''z'')\<lparr>txId := Some 3\<rparr>],
            nextTxId = 4\<rparr>,
         futureTxTable = \<lparr>rows = [], nextTxId = 2\<rparr>\<rparr> ''a'' = [1, 2, 3]
   \<and> LowestAcceptableNonce
        \<lparr>readyTxTable =
           \<lparr>rows = [(mkTx ''a'' 1 4 ''x'')\<lparr>txId := Some 1\<rparr>,
                    (mkTx ''a'' 2 4 ''y'')\<lparr>txId := Some 2\<rparr>,
                    (mkTx ''a'' 3 4 ''z'')\<lparr>txId := Some 3\<rparr>],
            nextTxId = 4\<rparr>,
         futureTxTable = \<lparr>rows = [], nextTxId = 2\<rparr>\<rparr> 1 ''a'' = Inr 4"
proof -
  let ?txs = "[mkTx ''a'' 3 4 ''z'', mkTx ''a'' 1 4 ''x'', mkTx ''a'' 2 4 ''y'']"
  let ?s = "\<lparr>readyTxTable =
           \<lparr>rows = [(mkTx ''a'' 1 4 ''x'')\<lparr>txId := Some 1\<rparr>,
                    (mkTx ''a'' 2 4 ''y'')\<lparr>txId := Some 2\<rparr>,
                    (mkTx ''a'' 3 4 ''z'')\<lparr>txId := Some 3\<rparr>],
            nextTxId = 4\<rparr>,
         futureTxTable = \<lparr>rows = [], nextTxId = 2\<rparr>\<rparr>"
  have lim: "0 < txQueryLimit sampleConfig" by (simp add: sampleConfig_def)
  have reach: "submitAll (okWallet 1) sampleConfig ?txs emptyService = Some ?s" by code_simp
  have nonces: "readyNonces ?s ''a'' = [1, 2, 3]"
    by (simp add: readyNonces_def tbl_pubKeyTxsInNonceOrder_def tbl_count_def mkTx_def)
  have c: "chainNextNonce (okWallet 1) ''a'' = 1" by (simp add: okWallet_def)
  have upt: "[1..<1 + length [1, 2, 3 :: nat]] = [1, 2, 3 :: nat]" by (simp add: upt_rec)
  note T = ready_contiguity [of sampleConfig "okWallet 1" ?txs ?s "''a''"]
  from T [THEN conjunct1, THEN mp, OF lim]
  have ex: "\<exists>s. submitAll (okWallet 1) sampleConfig ?txs emptyService = Some s" .
  have ne: "readyNonces ?s ''a'' \<noteq> []" unfolding nonces by simp
  note L = T [THEN conjunct2, THEN mp, OF reach, THEN conjunct2, THEN mp, OF ne,
      unfolded c nonces]
  have four: "1 + length [1, 2, 3 :: nat] = 4" by simp
  from L have low: "LowestAcceptableNonce ?s 1 ''a'' = Inr 4" unfolding four .
  from lim ex reach nonces low show ?thesis by (intro conjI)
qed

section \<open>The bound of the future table\<close>



text \<open>With \<^verbatim>\<open>maxFutureTxs\<close> at 0 the first operation with a future nonce is stored all the same.\<close>

lemma future_overshoot_at_zero_cap:
  "submitAll (okWallet 1) \<lparr>txQueryLimit = 2, maxFutureTxs = 0\<rparr> [mkTx ''a'' 3 0 ''x''] emptyService
   = Some \<lparr>readyTxTable = \<lparr>rows = [], nextTxId = 1\<rparr>,
           futureTxTable = \<lparr>rows = [(mkTx ''a'' 3 0 ''x'')\<lparr>txId := Some 1\<rparr>], nextTxId = 2\<rparr>\<rparr>"
  by code_simp

section \<open>Eviction from the future table\<close>


lemma add_future_branch:
  assumes ok: "txFailures ws txData = []"
    and l: "LowestAcceptableNonce s (chainNextNonce ws (pubKey txData)) (pubKey txData) = Inr l"
    and fut: "l < nonce txData"
  shows "add ws cfg txData s =
     Some (case tbl_add [txData] (futureTxTable (ensureFutureTxSpace cfg s)) of
             Inl e \<Rightarrow> (ensureFutureTxSpace cfg s, Inl e)
           | Inr future \<Rightarrow> ((ensureFutureTxSpace cfg s)\<lparr>futureTxTable := future\<rparr>, Inr []))"
  using ok l fut by (simp add: add_def checkTx_def Let_def split: sum.splits)


text \<open>
  A table above capacity with gaps between its ids is not among the pools that
  \<^verbatim>\<open>add\<close> calls reach from empty ones under one configuration. There the
  threshold \<^verbatim>\<open>first.txId + excess\<close> takes fewer than \<open>excess\<close> records: with
  ids 1, 5 and 6 and \<^verbatim>\<open>maxFutureTxs\<close> at 1 the excess is 3 and one record goes.
\<close>

lemma eviction_above_capacity_with_gaps:
  "ensureFutureTxSpace \<lparr>txQueryLimit = 2, maxFutureTxs = 1\<rparr>
     \<lparr>readyTxTable = emptyTable,
      futureTxTable =
        \<lparr>rows = [(mkTx ''a'' 3 0 ''x'')\<lparr>txId := Some 1\<rparr>,
                 (mkTx ''b'' 5 0 ''y'')\<lparr>txId := Some 5\<rparr>,
                 (mkTx ''c'' 7 0 ''z'')\<lparr>txId := Some 6\<rparr>],
         nextTxId = 7\<rparr>\<rparr>
   = \<lparr>readyTxTable = emptyTable,
      futureTxTable =
        \<lparr>rows = [(mkTx ''b'' 5 0 ''y'')\<lparr>txId := Some 5\<rparr>,
                 (mkTx ''c'' 7 0 ''z'')\<lparr>txId := Some 6\<rparr>],
         nextTxId = 7\<rparr>\<rparr>"
  by code_simp

section \<open>Duplicates in the future table\<close>

text \<open>
  Claim C8, as amended. In pools reached from empty ones the future table never
  holds two records of one account and nonce. An operation with a future nonce
  whose account and nonce are already stored there (and stay there through the
  eviction of this call) is not stored: \<^verbatim>\<open>futureTxTable.add\<close> throws the duplicate
  key error out of \<^verbatim>\<open>add\<close>, and the stored record stays as it is.
\<close>

theorem future_duplicate_refused:
  assumes "submitAll ws cfg txs emptyService = Some s"
    and "txFailures ws txData = []"
    and "LowestAcceptableNonce s (chainNextNonce ws (pubKey txData)) (pubKey txData) = Inr l"
    and "l < nonce txData"
    and "tbl_find (futureTxTable (ensureFutureTxSpace cfg s)) (pubKey txData) (nonce txData)
         = Some stored"
  shows "distinct (map (\<lambda>r. (pubKey r, nonce r)) (rows (futureTxTable s)))
       \<and> add ws cfg txData s = Some (ensureFutureTxSpace cfg s, Inl DuplicateKey)"
proof -
  from submitAll_preserves [OF poolsInvariant_empty assms(1)]
  have "wf_table (futureTxTable s)" by (simp add: poolsInvariant_def)
  then have d: "distinct (map (\<lambda>r. (pubKey r, nonce r)) (rows (futureTxTable s)))"
    by (rule wf_keys_distinct)
  from assms(5) have "tbl_add [txData] (futureTxTable (ensureFutureTxSpace cfg s)) = Inl DuplicateKey"
    by simp
  with add_future_branch [OF assms(2-4), of cfg]
  have "add ws cfg txData s = Some (ensureFutureTxSpace cfg s, Inl DuplicateKey)" by simp
  with d show ?thesis by simp
qed

text \<open>
  Claim C8 as it is stated fails: a second operation for an account and nonce in
  the future table does not take the place of the stored one.
\<close>

theorem future_supersession_counterexample:
  "submitAll (okWallet 1) sampleConfig [mkTx ''a'' 3 4 ''old''] emptyService
     = Some \<lparr>readyTxTable = \<lparr>rows = [], nextTxId = 1\<rparr>,
             futureTxTable = \<lparr>rows = [(mkTx ''a'' 3 4 ''old'')\<lparr>txId := Some 1\<rparr>], nextTxId = 2\<rparr>\<rparr>
   \<and> add (okWallet 1) sampleConfig (mkTx ''a'' 3 9 ''new'')
       \<lparr>readyTxTable = \<lparr>rows = [], nextTxId = 1\<rparr>,
        futureTxTable = \<lparr>rows = [(mkTx ''a'' 3 4 ''old'')\<lparr>txId := Some 1\<rparr>], nextTxId = 2\<rparr>\<rparr>
     = Some (\<lparr>readyTxTable = \<lparr>rows = [], nextTxId = 1\<rparr>,
              futureTxTable = \<lparr>rows = [(mkTx ''a'' 3 4 ''old'')\<lparr>txId := Some 1\<rparr>], nextTxId = 2\<rparr>\<rparr>,
             Inl DuplicateKey)
   \<and> payload (mkTx ''a'' 3 4 ''old'') \<noteq> payload (mkTx ''a'' 3 9 ''new'')"
proof (intro conjI)
  show "submitAll (okWallet 1) sampleConfig [mkTx ''a'' 3 4 ''old''] emptyService
     = Some \<lparr>readyTxTable = \<lparr>rows = [], nextTxId = 1\<rparr>,
             futureTxTable = \<lparr>rows = [(mkTx ''a'' 3 4 ''old'')\<lparr>txId := Some 1\<rparr>], nextTxId = 2\<rparr>\<rparr>"
    by code_simp
  show "add (okWallet 1) sampleConfig (mkTx ''a'' 3 9 ''new'')
       \<lparr>readyTxTable = \<lparr>rows = [], nextTxId = 1\<rparr>,
        futureTxTable = \<lparr>rows = [(mkTx ''a'' 3 4 ''old'')\<lparr>txId := Some 1\<rparr>], nextTxId = 2\<rparr>\<rparr>
     = Some (\<lparr>readyTxTable = \<lparr>rows = [], nextTxId = 1\<rparr>,
              futureTxTable = \<lparr>rows = [(mkTx ''a'' 3 4 ''old'')\<lparr>txId := Some 1\<rparr>], nextTxId = 2\<rparr>\<rparr>,
             Inl DuplicateKey)"
    by code_simp
  show "payload (mkTx ''a'' 3 4 ''old'') \<noteq> payload (mkTx ''a'' 3 9 ''new'')"
    by (simp add: mkTx_def)
qed

section \<open>Sample runs for eviction and duplicates\<close>



text \<open>One operation waiting in the future table.\<close>

definition oneFuture :: TxService where
  "oneFuture =
     \<lparr>readyTxTable = emptyTable,
      futureTxTable = \<lparr>rows = [(mkTx ''a'' 3 4 ''old'')\<lparr>txId := Some 1\<rparr>], nextTxId = 2\<rparr>\<rparr>"


theorem future_duplicate_refused_witness:
  "submitAll (okWallet 1) sampleConfig [mkTx ''a'' 3 4 ''old''] emptyService = Some oneFuture
   \<and> txFailures (okWallet 1) (mkTx ''a'' 3 9 ''new'') = []
   \<and> LowestAcceptableNonce oneFuture (chainNextNonce (okWallet 1) (pubKey (mkTx ''a'' 3 9 ''new'')))
        (pubKey (mkTx ''a'' 3 9 ''new'')) = Inr 1
   \<and> 1 < nonce (mkTx ''a'' 3 9 ''new'')
   \<and> tbl_find (futureTxTable (ensureFutureTxSpace sampleConfig oneFuture))
        (pubKey (mkTx ''a'' 3 9 ''new'')) (nonce (mkTx ''a'' 3 9 ''new''))
      = Some ((mkTx ''a'' 3 4 ''old'')\<lparr>txId := Some 1\<rparr>)
   \<and> ensureFutureTxSpace sampleConfig oneFuture = oneFuture
   \<and> distinct (map (\<lambda>r. (pubKey r, nonce r)) (rows (futureTxTable oneFuture)))
   \<and> add (okWallet 1) sampleConfig (mkTx ''a'' 3 9 ''new'') oneFuture
      = Some (ensureFutureTxSpace sampleConfig oneFuture, Inl DuplicateKey)"
proof -
  have h1: "submitAll (okWallet 1) sampleConfig [mkTx ''a'' 3 4 ''old''] emptyService = Some oneFuture"
    by code_simp
  have h2: "txFailures (okWallet 1) (mkTx ''a'' 3 9 ''new'') = []" by (simp add: okWallet_def)
  have h3: "LowestAcceptableNonce oneFuture (chainNextNonce (okWallet 1) (pubKey (mkTx ''a'' 3 9 ''new'')))
        (pubKey (mkTx ''a'' 3 9 ''new'')) = Inr 1"
    by (simp add: LowestAcceptableNonce_def tbl_nextNonceOf_def oneFuture_def emptyTable_def
        okWallet_def)
  have h4: "1 < nonce (mkTx ''a'' 3 9 ''new'')" by (simp add: mkTx_def)
  have noop: "ensureFutureTxSpace sampleConfig oneFuture = oneFuture"
    by (simp add: ensureFutureTxSpace_def sampleConfig_def oneFuture_def tbl_count_def)
  have h5: "tbl_find (futureTxTable (ensureFutureTxSpace sampleConfig oneFuture))
        (pubKey (mkTx ''a'' 3 9 ''new'')) (nonce (mkTx ''a'' 3 9 ''new''))
      = Some ((mkTx ''a'' 3 4 ''old'')\<lparr>txId := Some 1\<rparr>)"
    unfolding noop by (simp add: tbl_find_def oneFuture_def mkTx_def)
  from future_duplicate_refused [OF h1 h2 h3 h4 h5] h1 h2 h3 h4 h5 noop
  show ?thesis by (intro conjI) simp_all
qed

section \<open>Promotion in every order\<close>

text \<open>
  Away from the error of Claim C2, that is from a next nonce of 1 on, with a page
  limit of at least 1 and room for two records in the future table, the three
  operations end in the ready table in whatever order they are submitted.
\<close>

text \<open>The six orders of three operations.\<close>

definition permutations_of3 :: "'a \<Rightarrow> 'a \<Rightarrow> 'a \<Rightarrow> 'a list list" where
  "permutations_of3 a b c = [[a, b, c], [a, c, b], [b, a, c], [b, c, a], [c, a, b], [c, b, a]]"

lemma take_one_pos: "0 < n \<Longrightarrow> take n [x] = [x]"
  by (cases n) auto

lemma take_two_big: "2 \<le> n \<Longrightarrow> take n [x, y] = [x, y]"
  by (cases n) (auto simp: take_Cons split: nat.splits)

lemma promotion_order_012:
  assumes N: "0 < N" and C: "2 \<le> C" and L: "0 < L"
    and ok: "\<And>tx. txFailures ws tx = []" and chain: "chainNextNonce ws pk = N"
  shows "\<exists>s. submitAll ws \<lparr>txQueryLimit = L, maxFutureTxs = C\<rparr>
           [mkTx pk N r0 b0, mkTx pk (N + 1) r1 b1, mkTx pk (N + 2) r2 b2] emptyService = Some s
         \<and> rows (readyTxTable s)
             = [(mkTx pk N r0 b0)\<lparr>txId := Some 1\<rparr>,
                (mkTx pk (N + 1) r1 b1)\<lparr>txId := Some 2\<rparr>,
                (mkTx pk (N + 2) r2 b2)\<lparr>txId := Some 3\<rparr>]
         \<and> rows (futureTxTable s) = []"
proof -
  from L consider "L = 1" | "L = 2" | "3 \<le> L" by fastforce
  then show ?thesis
  proof cases
    case 1
    with N C ok chain show ?thesis
      by (simp add: add_def mkTx_def checkTx_def LowestAcceptableNonce_def
        tbl_nextNonceOf_def emptyService_def emptyTable_def ensureFutureTxSpace_def tbl_count_def
        tbl_find_def tryMoveFutureTxs.simps tbl_pubKeyTxsInNonceOrder_def tbl_remove_def
        take_two_big take_one_pos)
  next
    case 2
    with N C ok chain show ?thesis
      by (simp add: add_def mkTx_def checkTx_def LowestAcceptableNonce_def
        tbl_nextNonceOf_def emptyService_def emptyTable_def ensureFutureTxSpace_def tbl_count_def
        tbl_find_def tryMoveFutureTxs.simps tbl_pubKeyTxsInNonceOrder_def tbl_remove_def
        take_two_big take_one_pos)
  next
    case 3
    with N C ok chain show ?thesis
      by (simp add: add_def mkTx_def checkTx_def LowestAcceptableNonce_def
        tbl_nextNonceOf_def emptyService_def emptyTable_def ensureFutureTxSpace_def tbl_count_def
        tbl_find_def tryMoveFutureTxs.simps tbl_pubKeyTxsInNonceOrder_def tbl_remove_def
        take_two_big take_one_pos)
  qed
qed

lemma promotion_order_021:
  assumes N: "0 < N" and C: "2 \<le> C" and L: "0 < L"
    and ok: "\<And>tx. txFailures ws tx = []" and chain: "chainNextNonce ws pk = N"
  shows "\<exists>s. submitAll ws \<lparr>txQueryLimit = L, maxFutureTxs = C\<rparr>
           [mkTx pk N r0 b0, mkTx pk (N + 2) r2 b2, mkTx pk (N + 1) r1 b1] emptyService = Some s
         \<and> rows (readyTxTable s)
             = [(mkTx pk N r0 b0)\<lparr>txId := Some 1\<rparr>,
                (mkTx pk (N + 1) r1 b1)\<lparr>txId := Some 2\<rparr>,
                (mkTx pk (N + 2) r2 b2)\<lparr>txId := Some 3\<rparr>]
         \<and> rows (futureTxTable s) = []"
proof -
  from L consider "L = 1" | "L = 2" | "3 \<le> L" by fastforce
  then show ?thesis
  proof cases
    case 1
    with N C ok chain show ?thesis
      by (simp add: add_def mkTx_def checkTx_def LowestAcceptableNonce_def
        tbl_nextNonceOf_def emptyService_def emptyTable_def ensureFutureTxSpace_def tbl_count_def
        tbl_find_def tryMoveFutureTxs.simps tbl_pubKeyTxsInNonceOrder_def tbl_remove_def
        take_two_big take_one_pos)
  next
    case 2
    with N C ok chain show ?thesis
      by (simp add: add_def mkTx_def checkTx_def LowestAcceptableNonce_def
        tbl_nextNonceOf_def emptyService_def emptyTable_def ensureFutureTxSpace_def tbl_count_def
        tbl_find_def tryMoveFutureTxs.simps tbl_pubKeyTxsInNonceOrder_def tbl_remove_def
        take_two_big take_one_pos)
  next
    case 3
    with N C ok chain show ?thesis
      by (simp add: add_def mkTx_def checkTx_def LowestAcceptableNonce_def
        tbl_nextNonceOf_def emptyService_def emptyTable_def ensureFutureTxSpace_def tbl_count_def
        tbl_find_def tryMoveFutureTxs.simps tbl_pubKeyTxsInNonceOrder_def tbl_remove_def
        take_two_big take_one_pos)
  qed
qed

lemma promotion_order_102:
  assumes N: "0 < N" and C: "2 \<le> C" and L: "0 < L"
    and ok: "\<And>tx. txFailures ws tx = []" and chain: "chainNextNonce ws pk = N"
  shows "\<exists>s. submitAll ws \<lparr>txQueryLimit = L, maxFutureTxs = C\<rparr>
           [mkTx pk (N + 1) r1 b1, mkTx pk N r0 b0, mkTx pk (N + 2) r2 b2] emptyService = Some s
         \<and> rows (readyTxTable s)
             = [(mkTx pk N r0 b0)\<lparr>txId := Some 1\<rparr>,
                (mkTx pk (N + 1) r1 b1)\<lparr>txId := Some 2\<rparr>,
                (mkTx pk (N + 2) r2 b2)\<lparr>txId := Some 3\<rparr>]
         \<and> rows (futureTxTable s) = []"
proof -
  from L consider "L = 1" | "L = 2" | "3 \<le> L" by fastforce
  then show ?thesis
  proof cases
    case 1
    with N C ok chain show ?thesis
      by (simp add: add_def mkTx_def checkTx_def LowestAcceptableNonce_def
        tbl_nextNonceOf_def emptyService_def emptyTable_def ensureFutureTxSpace_def tbl_count_def
        tbl_find_def tryMoveFutureTxs.simps tbl_pubKeyTxsInNonceOrder_def tbl_remove_def
        take_two_big take_one_pos)
  next
    case 2
    with N C ok chain show ?thesis
      by (simp add: add_def mkTx_def checkTx_def LowestAcceptableNonce_def
        tbl_nextNonceOf_def emptyService_def emptyTable_def ensureFutureTxSpace_def tbl_count_def
        tbl_find_def tryMoveFutureTxs.simps tbl_pubKeyTxsInNonceOrder_def tbl_remove_def
        take_two_big take_one_pos)
  next
    case 3
    with N C ok chain show ?thesis
      by (simp add: add_def mkTx_def checkTx_def LowestAcceptableNonce_def
        tbl_nextNonceOf_def emptyService_def emptyTable_def ensureFutureTxSpace_def tbl_count_def
        tbl_find_def tryMoveFutureTxs.simps tbl_pubKeyTxsInNonceOrder_def tbl_remove_def
        take_two_big take_one_pos)
  qed
qed

lemma promotion_order_120:
  assumes N: "0 < N" and C: "2 \<le> C" and L: "0 < L"
    and ok: "\<And>tx. txFailures ws tx = []" and chain: "chainNextNonce ws pk = N"
  shows "\<exists>s. submitAll ws \<lparr>txQueryLimit = L, maxFutureTxs = C\<rparr>
           [mkTx pk (N + 1) r1 b1, mkTx pk (N + 2) r2 b2, mkTx pk N r0 b0] emptyService = Some s
         \<and> rows (readyTxTable s)
             = [(mkTx pk N r0 b0)\<lparr>txId := Some 1\<rparr>,
                (mkTx pk (N + 1) r1 b1)\<lparr>txId := Some 2\<rparr>,
                (mkTx pk (N + 2) r2 b2)\<lparr>txId := Some 3\<rparr>]
         \<and> rows (futureTxTable s) = []"
proof -
  from L consider "L = 1" | "L = 2" | "3 \<le> L" by fastforce
  then show ?thesis
  proof cases
    case 1
    with N C ok chain show ?thesis
      by (simp add: add_def mkTx_def checkTx_def LowestAcceptableNonce_def
        tbl_nextNonceOf_def emptyService_def emptyTable_def ensureFutureTxSpace_def tbl_count_def
        tbl_find_def tryMoveFutureTxs.simps tbl_pubKeyTxsInNonceOrder_def tbl_remove_def
        take_two_big take_one_pos)
  next
    case 2
    with N C ok chain show ?thesis
      by (simp add: add_def mkTx_def checkTx_def LowestAcceptableNonce_def
        tbl_nextNonceOf_def emptyService_def emptyTable_def ensureFutureTxSpace_def tbl_count_def
        tbl_find_def tryMoveFutureTxs.simps tbl_pubKeyTxsInNonceOrder_def tbl_remove_def
        take_two_big take_one_pos)
  next
    case 3
    with N C ok chain show ?thesis
      by (simp add: add_def mkTx_def checkTx_def LowestAcceptableNonce_def
        tbl_nextNonceOf_def emptyService_def emptyTable_def ensureFutureTxSpace_def tbl_count_def
        tbl_find_def tryMoveFutureTxs.simps tbl_pubKeyTxsInNonceOrder_def tbl_remove_def
        take_two_big take_one_pos)
  qed
qed

lemma promotion_order_201:
  assumes N: "0 < N" and C: "2 \<le> C" and L: "0 < L"
    and ok: "\<And>tx. txFailures ws tx = []" and chain: "chainNextNonce ws pk = N"
  shows "\<exists>s. submitAll ws \<lparr>txQueryLimit = L, maxFutureTxs = C\<rparr>
           [mkTx pk (N + 2) r2 b2, mkTx pk N r0 b0, mkTx pk (N + 1) r1 b1] emptyService = Some s
         \<and> rows (readyTxTable s)
             = [(mkTx pk N r0 b0)\<lparr>txId := Some 1\<rparr>,
                (mkTx pk (N + 1) r1 b1)\<lparr>txId := Some 2\<rparr>,
                (mkTx pk (N + 2) r2 b2)\<lparr>txId := Some 3\<rparr>]
         \<and> rows (futureTxTable s) = []"
proof -
  from L consider "L = 1" | "L = 2" | "3 \<le> L" by fastforce
  then show ?thesis
  proof cases
    case 1
    with N C ok chain show ?thesis
      by (simp add: add_def mkTx_def checkTx_def LowestAcceptableNonce_def
        tbl_nextNonceOf_def emptyService_def emptyTable_def ensureFutureTxSpace_def tbl_count_def
        tbl_find_def tryMoveFutureTxs.simps tbl_pubKeyTxsInNonceOrder_def tbl_remove_def
        take_two_big take_one_pos)
  next
    case 2
    with N C ok chain show ?thesis
      by (simp add: add_def mkTx_def checkTx_def LowestAcceptableNonce_def
        tbl_nextNonceOf_def emptyService_def emptyTable_def ensureFutureTxSpace_def tbl_count_def
        tbl_find_def tryMoveFutureTxs.simps tbl_pubKeyTxsInNonceOrder_def tbl_remove_def
        take_two_big take_one_pos)
  next
    case 3
    with N C ok chain show ?thesis
      by (simp add: add_def mkTx_def checkTx_def LowestAcceptableNonce_def
        tbl_nextNonceOf_def emptyService_def emptyTable_def ensureFutureTxSpace_def tbl_count_def
        tbl_find_def tryMoveFutureTxs.simps tbl_pubKeyTxsInNonceOrder_def tbl_remove_def
        take_two_big take_one_pos)
  qed
qed

lemma promotion_order_210:
  assumes N: "0 < N" and C: "2 \<le> C" and L: "0 < L"
    and ok: "\<And>tx. txFailures ws tx = []" and chain: "chainNextNonce ws pk = N"
  shows "\<exists>s. submitAll ws \<lparr>txQueryLimit = L, maxFutureTxs = C\<rparr>
           [mkTx pk (N + 2) r2 b2, mkTx pk (N + 1) r1 b1, mkTx pk N r0 b0] emptyService = Some s
         \<and> rows (readyTxTable s)
             = [(mkTx pk N r0 b0)\<lparr>txId := Some 1\<rparr>,
                (mkTx pk (N + 1) r1 b1)\<lparr>txId := Some 2\<rparr>,
                (mkTx pk (N + 2) r2 b2)\<lparr>txId := Some 3\<rparr>]
         \<and> rows (futureTxTable s) = []"
proof -
  from L consider "L = 1" | "L = 2" | "3 \<le> L" by fastforce
  then show ?thesis
  proof cases
    case 1
    with N C ok chain show ?thesis
      by (simp add: add_def mkTx_def checkTx_def LowestAcceptableNonce_def
        tbl_nextNonceOf_def emptyService_def emptyTable_def ensureFutureTxSpace_def tbl_count_def
        tbl_find_def tryMoveFutureTxs.simps tbl_pubKeyTxsInNonceOrder_def tbl_remove_def
        take_two_big take_one_pos)
  next
    case 2
    with N C ok chain show ?thesis
      by (simp add: add_def mkTx_def checkTx_def LowestAcceptableNonce_def
        tbl_nextNonceOf_def emptyService_def emptyTable_def ensureFutureTxSpace_def tbl_count_def
        tbl_find_def tryMoveFutureTxs.simps tbl_pubKeyTxsInNonceOrder_def tbl_remove_def
        take_two_big take_one_pos)
  next
    case 3
    with N C ok chain show ?thesis
      by (simp add: add_def mkTx_def checkTx_def LowestAcceptableNonce_def
        tbl_nextNonceOf_def emptyService_def emptyTable_def ensureFutureTxSpace_def tbl_count_def
        tbl_find_def tryMoveFutureTxs.simps tbl_pubKeyTxsInNonceOrder_def tbl_remove_def
        take_two_big take_one_pos)
  qed
qed

lemma promotion_from_positive_nonce:
  assumes "0 < N" and "2 \<le> maxFutureTxs cfg" and "0 < txQueryLimit cfg"
    and "\<And>tx. txFailures ws tx = []" and "chainNextNonce ws pk = N"
    and "txs \<in> set (permutations_of3 (mkTx pk N r0 b0) (mkTx pk (N + 1) r1 b1) (mkTx pk (N + 2) r2 b2))"
  shows "\<exists>s. submitAll ws cfg txs emptyService = Some s
         \<and> rows (readyTxTable s)
             = [(mkTx pk N r0 b0)\<lparr>txId := Some 1\<rparr>,
                (mkTx pk (N + 1) r1 b1)\<lparr>txId := Some 2\<rparr>,
                (mkTx pk (N + 2) r2 b2)\<lparr>txId := Some 3\<rparr>]
         \<and> rows (futureTxTable s) = []"
proof -
  obtain L C where cfg: "cfg = \<lparr>txQueryLimit = L, maxFutureTxs = C\<rparr>" by (cases cfg) auto
  with assms(2,3) have C: "2 \<le> C" and L: "0 < L" by simp_all
  note o = promotion_order_012 [OF assms(1) C L assms(4,5)]
    promotion_order_021 [OF assms(1) C L assms(4,5)]
    promotion_order_102 [OF assms(1) C L assms(4,5)]
    promotion_order_120 [OF assms(1) C L assms(4,5)]
    promotion_order_201 [OF assms(1) C L assms(4,5)]
    promotion_order_210 [OF assms(1) C L assms(4,5)]
  from assms(6) show ?thesis
    unfolding cfg permutations_of3_def using o by auto
qed

end
